theory Spec2Isabelle
  imports Main "HOL-Library.Word" "HOL-Library.Sublist"
begin

section \<open>Flow-controlled data channels: \<^verbatim>\<open>src/helpers/data_channel.ts\<close>\<close>

text \<open>
  The file defines two classes. \<^verbatim>\<open>FlowControlledDataChannel\<close> wraps an
  \<^verbatim>\<open>RTCDataChannel\<close>, pauses once the channel's buffered amount reaches a high
  water mark and resumes when the channel reports that the buffered amount is low.
  \<^verbatim>\<open>UnboundedFlowControlledDataChannel\<close> extends it and queues writes on a promise
  chain.

  The classes are stateful and asynchronous, so the model is a state machine: a record
  holds the object's fields together with the part of the JavaScript runtime the object
  lives in (the promises it created and the microtask queue), every method is a function
  from state to state, and the event loop is a step function driven by events.
\<close>

subsection \<open>Values\<close>

text \<open>A message is a \<^verbatim>\<open>Uint8Array\<close>. Promises are referred to by identity: an index
  into the heap of promise cells.\<close>

type_synonym message = "8 word list"
type_synonym pid = nat

text \<open>The two things that can be thrown: the \<^verbatim>\<open>Error\<close> of line 83
  (\<^verbatim>\<open>'Unable to write, data channel is paused!'\<close>), and whatever the channel's
  \<^verbatim>\<open>send\<close> throws (carried as an opaque description).\<close>

datatype error = NotReady | TransportError string

text \<open>How a promise of type \<^verbatim>\<open>Promise<void>\<close> settles.\<close>

datatype settled = Ok | Err error

text \<open>
  The continuations the code attaches to promises:
  \<^item> \<open>ThenWrite message d\<close> is the reaction of line 139,
    \<^verbatim>\<open>this.queue.then(() => this.writeWhenReady(message))\<close>, where \<open>d\<close> is the promise
    that \<^verbatim>\<open>then\<close> returns. There is no rejection handler.
  \<^item> \<open>AwaitReady message w\<close> is the rest of \<^verbatim>\<open>writeWhenReady\<close> after
    \<^verbatim>\<open>await this.ready\<close> (line 143), that is \<^verbatim>\<open>super.write(message)\<close>, where
    \<open>w\<close> is the promise of the async function.
  \<^item> \<open>Adopt d\<close> are the resolving functions of \<open>d\<close>, attached to the promise that a
    \<^verbatim>\<open>then\<close> callback returned.
\<close>

datatype reaction = ThenWrite message pid | AwaitReady message pid | Adopt pid

text \<open>A microtask: a reaction of a promise that settled, or the job that makes a promise
  follow a promise it was resolved with.\<close>

datatype job = React reaction settled | ResolveThenable pid pid

text \<open>A promise cell: pending with its waiters in the order they were attached, or
  settled.\<close>

datatype promise = Pending "reaction list" | Fulfilled | Rejected error

text \<open>The only handler the code installs on the channel: the arrow function of lines
  56 to 61.\<close>

datatype handler = Unpause

text \<open>The two \<^verbatim>\<open>$log.debug\<close> lines (58 and 97), with the channel's label and the
  buffered amount they print.\<close>

datatype log_entry = Resumed string nat | Paused string nat

subsection \<open>The channel\<close>

text \<open>
  Modelled from the spec: the \<^verbatim>\<open>RTCDataChannel\<close> is a browser object, not code of
  this repository. The record has the attributes the code reads or writes
  (\<^verbatim>\<open>label\<close>, \<^verbatim>\<open>bufferedAmount\<close>, \<^verbatim>\<open>bufferedAmountLowThreshold\<close>,
  \<^verbatim>\<open>onbufferedamountlow\<close>) and a history \<open>sent\<close> of the messages that
  \<^verbatim>\<open>send\<close> was called with, in call order. Byte counts are natural numbers.
\<close>

record RTCDataChannel =
  label :: string
  bufferedAmount :: nat
  bufferedAmountLowThreshold :: nat
  onbufferedamountlow :: "handler option"
  sent :: "message list"

text \<open>
  Modelled from the spec: \<^verbatim>\<open>send(bytes) -> void | throws\<close>, with a buffered amount
  that is managed by the transport. What one call does is up to the channel, so it is an
  argument: the call either returns, and the channel then reports the given buffered
  amount, or throws.
\<close>

datatype send_outcome = Accepts nat | Refuses string

definition send ::
  "send_outcome \<Rightarrow> message \<Rightarrow> RTCDataChannel \<Rightarrow> (error \<times> RTCDataChannel) + RTCDataChannel" where
  "send outcome message d =
     (let d = d\<lparr>sent := sent d @ [message]\<rparr> in
      case outcome of
        Refuses x \<Rightarrow> Inl (TransportError x, d)
      | Accepts b \<Rightarrow> Inr (d\<lparr>bufferedAmount := b\<rparr>))"

subsection \<open>Promises and futures\<close>

text \<open>
  The state of a \<^verbatim>\<open>FlowControlledDataChannel\<close>: its fields \<^verbatim>\<open>$log\<close> (as the
  lines written to it), \<^verbatim>\<open>dc\<close>, \<^verbatim>\<open>highWaterMark\<close> and \<^verbatim>\<open>_ready\<close> (as
  \<open>ready_future\<close>, the identity of the current future), and the runtime: the heap of promise
  cells and the queue of microtasks.
\<close>

record FlowControlledDataChannel =
  heap :: "promise list"
  microtasks :: "job list"
  debug_log :: "log_entry list"
  dc :: RTCDataChannel
  highWaterMark :: nat
  ready_future :: pid

text \<open>The subclass adds the field \<^verbatim>\<open>queue\<close>, the tail of the promise chain.\<close>

record UnboundedFlowControlledDataChannel = FlowControlledDataChannel +
  queue :: pid

definition lookup :: "promise list \<Rightarrow> pid \<Rightarrow> promise option" where
  "lookup h p = (if p < length h then Some (h ! p) else None)"

text \<open>
  Modelled from the spec: the class \<^verbatim>\<open>Future\<close> is not in the source file. The spec
  describes it as a single-resolution promise, referenced by identity, that is a cell
  holding either "pending" with its waiters or "resolved", and whose resolution is
  idempotent. \<^verbatim>\<open>new Future()\<close> allocates a pending cell, \<^verbatim>\<open>done\<close> says whether
  the cell is settled, \<^verbatim>\<open>resolve()\<close> settles a pending cell and schedules its waiters.
\<close>

definition new_Future ::
  "'a FlowControlledDataChannel_scheme \<Rightarrow> pid \<times> 'a FlowControlledDataChannel_scheme" where
  "new_Future this = (length (heap this), this\<lparr>heap := heap this @ [Pending []]\<rparr>)"

definition is_done :: "promise list \<Rightarrow> pid \<Rightarrow> bool" where
  "is_done h p =
     (case lookup h p of
        Some (Pending rs) \<Rightarrow> False
      | Some Fulfilled \<Rightarrow> True
      | Some (Rejected e) \<Rightarrow> True
      | None \<Rightarrow> False)"

text \<open>Settling a promise: a pending cell takes the outcome and each waiter becomes a
  microtask, in order; a settled cell stays as it is.\<close>

definition settle ::
  "settled \<Rightarrow> pid \<Rightarrow> 'a FlowControlledDataChannel_scheme \<Rightarrow> 'a FlowControlledDataChannel_scheme" where
  "settle out p this =
     (case lookup (heap this) p of
        Some (Pending rs) \<Rightarrow>
          this\<lparr>heap := (heap this)[p := (case out of Ok \<Rightarrow> Fulfilled | Err e \<Rightarrow> Rejected e)],
               microtasks := microtasks this @ map (\<lambda>r. React r out) rs\<rparr>
      | Some Fulfilled \<Rightarrow> this
      | Some (Rejected e) \<Rightarrow> this
      | None \<Rightarrow> this)"

definition resolve ::
  "pid \<Rightarrow> 'a FlowControlledDataChannel_scheme \<Rightarrow> 'a FlowControlledDataChannel_scheme" where
  "resolve p this = settle Ok p this"

text \<open>Attaching a reaction to a promise (what \<^verbatim>\<open>then\<close> and \<^verbatim>\<open>await\<close> do with
  their continuation): a pending promise keeps it as a waiter, a settled one schedules it
  as a microtask. The continuation never runs inside the call.\<close>

definition attach ::
  "pid \<Rightarrow> reaction \<Rightarrow> 'a FlowControlledDataChannel_scheme \<Rightarrow> 'a FlowControlledDataChannel_scheme" where
  "attach p r this =
     (case lookup (heap this) p of
        Some (Pending rs) \<Rightarrow> this\<lparr>heap := (heap this)[p := Pending (rs @ [r])]\<rparr>
      | Some Fulfilled \<Rightarrow> this\<lparr>microtasks := microtasks this @ [React r Ok]\<rparr>
      | Some (Rejected e) \<Rightarrow> this\<lparr>microtasks := microtasks this @ [React r (Err e)]\<rparr>
      | None \<Rightarrow> this)"

subsection \<open>FlowControlledDataChannel\<close>

text \<open>The handler of lines 56 to 61.\<close>

definition on_buffered_amount_low ::
  "'a FlowControlledDataChannel_scheme \<Rightarrow> 'a FlowControlledDataChannel_scheme" where
  "on_buffered_amount_low this =
     (if \<not> is_done (heap this) (ready_future this) then
        resolve (ready_future this)
          (this\<lparr>debug_log := debug_log this @
             [Resumed (label (dc this)) (bufferedAmount (dc this))]\<rparr>)
      else this)"

text \<open>
  The constructor (lines 43 to 62). An omitted parameter is \<open>None\<close> and takes the
  default of line 45. The field initialiser of line 31 creates the future, line 52
  resolves it, lines 55 and 56 configure the channel. The runtime starts empty.
\<close>

definition new_FlowControlledDataChannel ::
  "RTCDataChannel \<Rightarrow> nat option \<Rightarrow> nat option \<Rightarrow> FlowControlledDataChannel" where
  "new_FlowControlledDataChannel d low high =
     (let lowWaterMark = (case low of None \<Rightarrow> 262144 | Some l \<Rightarrow> l);
          highWaterMark' = (case high of None \<Rightarrow> 1048576 | Some h \<Rightarrow> h);
          (f, this) = new_Future
             \<lparr>heap = [], microtasks = [], debug_log = [], dc = d,
              highWaterMark = highWaterMark', ready_future = 0\<rparr>;
          this = this\<lparr>ready_future := f\<rparr>;
          this = resolve (ready_future this) this
      in this\<lparr>dc := (dc this)\<lparr>bufferedAmountLowThreshold := lowWaterMark,
                                onbufferedamountlow := Some Unpause\<rparr>\<rparr>)"

text \<open>The getter \<^verbatim>\<open>ready\<close> (lines 67 to 69).\<close>

definition ready :: "'a FlowControlledDataChannel_scheme \<Rightarrow> pid" where
  "ready this = ready_future this"

text \<open>
  \<^verbatim>\<open>write\<close> of \<^verbatim>\<open>FlowControlledDataChannel\<close> (lines 80 to 99), here
  \<open>write_bounded\<close>. The result is \<open>Inr\<close> of the new state when the call
  returns and \<open>Inl\<close> of the error and the state it leaves behind when it throws.
\<close>

definition write_bounded ::
  "send_outcome \<Rightarrow> message \<Rightarrow> 'a FlowControlledDataChannel_scheme \<Rightarrow>
     (error \<times> 'a FlowControlledDataChannel_scheme) + 'a FlowControlledDataChannel_scheme" where
  "write_bounded outcome message this =
     (if \<not> is_done (heap this) (ready_future this) then Inl (NotReady, this)
      else
        case send outcome message (dc this) of
          Inl (e, d) \<Rightarrow> Inl (e, this\<lparr>dc := d\<rparr>)
        | Inr d \<Rightarrow>
            (let this = this\<lparr>dc := d\<rparr> in
             if bufferedAmount (dc this) \<ge> highWaterMark this then
               (let (f, this) = new_Future this;
                    this = this\<lparr>ready_future := f\<rparr>
                in Inr (this\<lparr>debug_log := debug_log this @
                          [Paused (label (dc this)) (bufferedAmount (dc this))]\<rparr>))
             else Inr this))"

text \<open>The channel fires \<^verbatim>\<open>bufferedamountlow\<close>: its buffered amount is now \<open>b\<close>, and
  the handler that is installed runs.\<close>

definition fire_bufferedamountlow ::
  "nat \<Rightarrow> 'a FlowControlledDataChannel_scheme \<Rightarrow> 'a FlowControlledDataChannel_scheme" where
  "fire_bufferedamountlow b this =
     (let this = this\<lparr>dc := (dc this)\<lparr>bufferedAmount := b\<rparr>\<rparr> in
      case onbufferedamountlow (dc this) of
        None \<Rightarrow> this
      | Some Unpause \<Rightarrow> on_buffered_amount_low this)"

subsection \<open>UnboundedFlowControlledDataChannel\<close>

text \<open>The constructor (lines 124 to 127): the chain starts at the future that the
  superclass resolved.\<close>

definition new_UnboundedFlowControlledDataChannel ::
  "RTCDataChannel \<Rightarrow> nat option \<Rightarrow> nat option \<Rightarrow> UnboundedFlowControlledDataChannel" where
  "new_UnboundedFlowControlledDataChannel d low high =
     (let this = new_FlowControlledDataChannel d low high
      in FlowControlledDataChannel.extend this \<lparr>queue = ready this\<rparr>)"

text \<open>
  \<^verbatim>\<open>write\<close> of the subclass (lines 135 to 140): \<^verbatim>\<open>then\<close> creates the promise it
  returns and attaches the callback to the current tail; the new promise becomes the
  tail.
\<close>

definition write_unbounded ::
  "message \<Rightarrow> UnboundedFlowControlledDataChannel \<Rightarrow> UnboundedFlowControlledDataChannel" where
  "write_unbounded message this =
     (let (d, this) = new_Future this;
          this = attach (queue this) (ThenWrite message d) this
      in this\<lparr>queue := d\<rparr>)"

text \<open>
  \<^verbatim>\<open>writeWhenReady\<close> (lines 142 to 145) up to its \<^verbatim>\<open>await\<close>: the async function
  creates its promise \<open>w\<close>, reads \<^verbatim>\<open>this.ready\<close> and suspends on it. It returns
  \<open>w\<close>.
\<close>

definition writeWhenReady ::
  "message \<Rightarrow> UnboundedFlowControlledDataChannel \<Rightarrow> pid \<times> UnboundedFlowControlledDataChannel" where
  "writeWhenReady message this =
     (let (w, this) = new_Future this
      in (w, attach (ready this) (AwaitReady message w) this))"

text \<open>
  One microtask. The outcome of \<^verbatim>\<open>send\<close> is used by the one job that calls it.
  \<^item> The callback of line 139 runs when the previous tail fulfilled: it calls
    \<^verbatim>\<open>writeWhenReady\<close> and its promise \<open>d\<close> is resolved with the promise returned,
    which schedules the job that makes \<open>d\<close> follow it. When the previous tail rejected
    there is no handler and \<open>d\<close> rejects with the same error.
  \<^item> The rest of \<^verbatim>\<open>writeWhenReady\<close> runs when the awaited future fulfilled: it calls
    \<^verbatim>\<open>super.write(message)\<close>; the function's promise fulfils when that returns and
    rejects with what it throws.
\<close>

fun run_job ::
  "send_outcome \<Rightarrow> job \<Rightarrow> UnboundedFlowControlledDataChannel \<Rightarrow> UnboundedFlowControlledDataChannel" where
  "run_job outcome (React (ThenWrite message d) Ok) this =
     (let (w, this) = writeWhenReady message this
      in this\<lparr>microtasks := microtasks this @ [ResolveThenable d w]\<rparr>)"
| "run_job outcome (React (ThenWrite message d) (Err e)) this = settle (Err e) d this"
| "run_job outcome (React (AwaitReady message w) Ok) this =
     (case write_bounded outcome message this of
        Inl (e, this) \<Rightarrow> settle (Err e) w this
      | Inr this \<Rightarrow> settle Ok w this)"
| "run_job outcome (React (AwaitReady message w) (Err e)) this = settle (Err e) w this"
| "run_job outcome (React (Adopt d) out) this = settle out d this"
| "run_job outcome (ResolveThenable d w) this = attach w (Adopt d) this"

subsection \<open>The event loop\<close>

text \<open>
  What can happen to an \<^verbatim>\<open>UnboundedFlowControlledDataChannel\<close>: its owner calls
  \<^verbatim>\<open>write\<close>, the runtime runs the next microtask (with the outcome of a
  \<^verbatim>\<open>send\<close>, should the microtask call it), or the channel fires
  \<^verbatim>\<open>bufferedamountlow\<close>. Events may interleave in any order.

  The promises follow the language: a callback never runs inside \<^verbatim>\<open>then\<close>, a promise
  resolved with another promise follows it through a job of its own, and the continuation
  of an \<^verbatim>\<open>await\<close> runs as a microtask once the awaited promise is fulfilled. How many
  turns of the microtask queue an \<^verbatim>\<open>await\<close> takes beyond that is not modelled. The
  channel's event may arrive between any two microtasks, which a runtime does not allow:
  what holds of all runs of the model holds of the runs that occur. Code other than the
  controller that calls \<^verbatim>\<open>send\<close> on the same channel is not part of the model.
\<close>

datatype event = CallWrite message | Microtask send_outcome | BufferedAmountLow nat

fun step :: "event \<Rightarrow> UnboundedFlowControlledDataChannel \<Rightarrow> UnboundedFlowControlledDataChannel" where
  "step (CallWrite message) this = write_unbounded message this"
| "step (Microtask outcome) this =
     (case microtasks this of
        [] \<Rightarrow> this
      | j # js \<Rightarrow> run_job outcome j (this\<lparr>microtasks := js\<rparr>))"
| "step (BufferedAmountLow b) this = fire_bufferedamountlow b this"

fun run :: "event list \<Rightarrow> UnboundedFlowControlledDataChannel \<Rightarrow> UnboundedFlowControlledDataChannel" where
  "run [] this = this"
| "run (e # es) this = run es (step e this)"

text \<open>The messages passed to \<^verbatim>\<open>write\<close> in a sequence of events, in call order.\<close>

fun writes_of :: "event list \<Rightarrow> message list" where
  "writes_of [] = []"
| "writes_of (CallWrite message # es) = message # writes_of es"
| "writes_of (Microtask outcome # es) = writes_of es"
| "writes_of (BufferedAmountLow b # es) = writes_of es"

section \<open>Notions used by the statements\<close>

text \<open>The controller is paused when the current future is a pending cell, and ready when
  \<open>is_done\<close> holds of it.\<close>

definition is_pending :: "promise list \<Rightarrow> pid \<Rightarrow> bool" where
  "is_pending h p =
     (case lookup h p of
        Some (Pending rs) \<Rightarrow> True
      | Some Fulfilled \<Rightarrow> False
      | Some (Rejected e) \<Rightarrow> False
      | None \<Rightarrow> False)"

text \<open>A caller that writes one message after the other to a
  \<^verbatim>\<open>FlowControlledDataChannel\<close>, each with the outcome of its \<^verbatim>\<open>send\<close>, and
  stops at the first call that throws.\<close>

fun writes_bounded ::
  "(send_outcome \<times> message) list \<Rightarrow> 'a FlowControlledDataChannel_scheme \<Rightarrow>
     (error \<times> 'a FlowControlledDataChannel_scheme) + 'a FlowControlledDataChannel_scheme" where
  "writes_bounded [] this = Inr this"
| "writes_bounded ((outcome, message) # rest) this =
     (case write_bounded outcome message this of
        Inl failure \<Rightarrow> Inl failure
      | Inr this \<Rightarrow> writes_bounded rest this)"





section \<open>The invariant of the promise chain\<close>

text \<open>
  The states that an unbounded controller reaches have the shape of one chain. The
  promises that \<^verbatim>\<open>then\<close> returned for the messages not yet started are pending and
  linked, each holding the callback of the next as its only waiter, up to the tail
  \<^verbatim>\<open>queue\<close>; in front of them stands at most one unit of work, the frontier, in one of
  the phases below. The definitions of this section describe that shape; they are used in
  proofs only.
\<close>

text \<open>The cell of a promise settled with a given outcome.\<close>

definition cell_of :: "settled \<Rightarrow> promise" where
  "cell_of out = (case out of Ok \<Rightarrow> Fulfilled | Err e \<Rightarrow> Rejected e)"

text \<open>\<open>chain h d links q\<close>: in the heap \<open>h\<close> the pending promise \<open>d\<close> is followed by
  the promises of \<open>links\<close>, each with the message whose callback waits on its
  predecessor, and the last of them is \<open>q\<close>, with no waiter. Promises further down the
  chain were created later.\<close>

fun chain :: "promise list \<Rightarrow> pid \<Rightarrow> (message \<times> pid) list \<Rightarrow> pid \<Rightarrow> bool" where
  "chain h d [] q = (d = q \<and> lookup h d = Some (Pending []))"
| "chain h d ((m, d') # links) q =
     (lookup h d = Some (Pending [ThenWrite m d']) \<and> d < d' \<and> chain h d' links q)"

text \<open>The promises of a chain.\<close>

definition cells :: "pid \<Rightarrow> (message \<times> pid) list \<Rightarrow> pid set" where
  "cells d links = insert d (set (map snd links))"

text \<open>With outcome \<open>Ok\<close> no promise of the heap is rejected; with outcome \<open>Err e\<close> the
  error \<open>e\<close> was thrown by the channel and is the only one promises are rejected
  with.\<close>

definition no_other_failure :: "settled \<Rightarrow> promise list \<Rightarrow> bool" where
  "no_other_failure out h =
     (case out of
        Ok \<Rightarrow> (\<forall>p e. lookup h p \<noteq> Some (Rejected e))
      | Err e \<Rightarrow> (\<exists>x. e = TransportError x) \<and> (\<forall>p e'. lookup h p = Some (Rejected e') \<longrightarrow> e' = e))"

text \<open>The messages \<open>snt\<close> handed to \<^verbatim>\<open>send\<close> so far, against the channel's history
  \<open>base\<close> at construction and the messages \<open>ws\<close> written since: while nothing has
  failed, what was written is what was sent followed by the messages \<open>todo\<close> still in
  the chain, in order; after a failure, what was sent is an initial segment of what was
  written.\<close>

definition progress ::
  "message list \<Rightarrow> message list \<Rightarrow> message list \<Rightarrow> settled \<Rightarrow> message list \<Rightarrow> bool" where
  "progress base ws snt out todo =
     (prefix base snt \<and>
      (case out of
         Ok \<Rightarrow> base @ ws = snt @ todo
       | Err e \<Rightarrow> prefix snt (base @ ws)))"

text \<open>All pending promises of the heap are among \<open>L\<close>.\<close>

definition live_only :: "promise list \<Rightarrow> pid set \<Rightarrow> bool" where
  "live_only h L = (\<forall>p rs. lookup h p = Some (Pending rs) \<longrightarrow> p \<in> L)"

text \<open>The current future is fulfilled, or pending with nothing waiting on it.\<close>

definition rdy :: "promise list \<Rightarrow> pid \<Rightarrow> bool" where
  "rdy h r = (lookup h r = Some Fulfilled \<or> lookup h r = Some (Pending []))"

text \<open>
  The frontier:
  \<^item> \<open>Idle out\<close>: no unit; the tail is settled with \<open>out\<close>.
  \<^item> \<open>Scheduled m d out\<close>: the callback for message \<open>m\<close> with promise \<open>d\<close> is the
    microtask to run, its predecessor having settled with \<open>out\<close>.
  \<^item> \<open>Started m d w k\<close>: \<^verbatim>\<open>writeWhenReady\<close> runs for \<open>m\<close> with promise \<open>w\<close>; the
    number \<open>k\<close> tells where its continuation and the job that makes \<open>d\<close> follow \<open>w\<close>
    are.
  \<^item> \<open>Finished d w out\<close>: \<^verbatim>\<open>super.write\<close> was called and \<open>w\<close> settled with
    \<open>out\<close>; the job that makes \<open>d\<close> follow \<open>w\<close> is still to run.
  \<^item> \<open>Adopting d out\<close>: the microtask that settles \<open>d\<close> with \<open>out\<close> is to run.
\<close>

datatype phase =
    Idle settled
  | Scheduled message pid settled
  | Started message pid pid nat
  | Finished pid pid settled
  | Adopting pid settled

text \<open>
  The five ways a started unit can stand, given the microtask queue, the cell of \<open>w\<close>
  and the cell of the current future: the continuation is scheduled before (0) or after
  (2) the job of \<open>d\<close>, or waits on the pending current future while that job is
  scheduled (1); after the job of \<open>d\<close> has run, the continuation is scheduled (3) or
  waits on the pending current future (4).
\<close>

fun started :: "nat \<Rightarrow> message \<Rightarrow> pid \<Rightarrow> pid \<Rightarrow> job list \<Rightarrow> promise option \<Rightarrow> promise option \<Rightarrow> bool" where
  "started 0 m d w js cw cr =
     (js = [React (AwaitReady m w) Ok, ResolveThenable d w] \<and> cw = Some (Pending []) \<and> cr = Some Fulfilled)"
| "started (Suc 0) m d w js cw cr =
     (js = [ResolveThenable d w] \<and> cw = Some (Pending []) \<and> cr = Some (Pending [AwaitReady m w]))"
| "started (Suc (Suc 0)) m d w js cw cr =
     (js = [ResolveThenable d w, React (AwaitReady m w) Ok] \<and> cw = Some (Pending []) \<and> cr = Some Fulfilled)"
| "started (Suc (Suc (Suc 0))) m d w js cw cr =
     (js = [React (AwaitReady m w) Ok] \<and> cw = Some (Pending [Adopt d]) \<and> cr = Some Fulfilled)"
| "started (Suc (Suc (Suc (Suc 0)))) m d w js cw cr =
     (js = [] \<and> cw = Some (Pending [Adopt d]) \<and> cr = Some (Pending [AwaitReady m w]))"
| "started (Suc (Suc (Suc (Suc (Suc n))))) m d w js cw cr = False"

text \<open>\<open>rel ph links base ws s\<close>: the state \<open>s\<close> has frontier \<open>ph\<close> and the chain
  \<open>links\<close> behind it, after the messages \<open>ws\<close> were written to a controller
  constructed on a channel with history \<open>base\<close>.\<close>

fun rel ::
  "phase \<Rightarrow> (message \<times> pid) list \<Rightarrow> message list \<Rightarrow> message list \<Rightarrow>
   UnboundedFlowControlledDataChannel \<Rightarrow> bool" where
  "rel (Idle out) links base ws s =
     (links = [] \<and> microtasks s = [] \<and>
      lookup (heap s) (queue s) = Some (cell_of out) \<and>
      rdy (heap s) (ready_future s) \<and>
      no_other_failure out (heap s) \<and>
      progress base ws (sent (dc s)) out [] \<and>
      live_only (heap s) {ready_future s})"
| "rel (Scheduled m d out) links base ws s =
     (microtasks s = [React (ThenWrite m d) out] \<and>
      chain (heap s) d links (queue s) \<and>
      ready_future s \<notin> cells d links \<and>
      rdy (heap s) (ready_future s) \<and>
      no_other_failure out (heap s) \<and>
      progress base ws (sent (dc s)) out (m # map fst links) \<and>
      live_only (heap s) (insert (ready_future s) (cells d links)))"
| "rel (Started m d w k) links base ws s =
     (started k m d w (microtasks s) (lookup (heap s) w) (lookup (heap s) (ready_future s)) \<and>
      chain (heap s) d links (queue s) \<and>
      ready_future s \<notin> cells d links \<and>
      w \<notin> cells d links \<and> w \<noteq> ready_future s \<and>
      no_other_failure Ok (heap s) \<and>
      progress base ws (sent (dc s)) Ok (m # map fst links) \<and>
      live_only (heap s) (insert w (insert (ready_future s) (cells d links))))"
| "rel (Finished d w out) links base ws s =
     (microtasks s = [ResolveThenable d w] \<and>
      lookup (heap s) w = Some (cell_of out) \<and>
      chain (heap s) d links (queue s) \<and>
      ready_future s \<notin> cells d links \<and>
      rdy (heap s) (ready_future s) \<and>
      no_other_failure out (heap s) \<and>
      progress base ws (sent (dc s)) out (map fst links) \<and>
      live_only (heap s) (insert (ready_future s) (cells d links)))"
| "rel (Adopting d out) links base ws s =
     (microtasks s = [React (Adopt d) out] \<and>
      chain (heap s) d links (queue s) \<and>
      ready_future s \<notin> cells d links \<and>
      rdy (heap s) (ready_future s) \<and>
      no_other_failure out (heap s) \<and>
      progress base ws (sent (dc s)) out (map fst links) \<and>
      live_only (heap s) (insert (ready_future s) (cells d links)))"

text \<open>The invariant: the state has one of these shapes.\<close>

definition inv :: "message list \<Rightarrow> message list \<Rightarrow> UnboundedFlowControlledDataChannel \<Rightarrow> bool" where
  "inv base ws s = (\<exists>ph links. rel ph links base ws s)"

text \<open>A bound on the number of microtasks that run before the microtask queue is empty,
  for a frontier and the number of links behind it.\<close>

fun rank :: "phase \<Rightarrow> nat \<Rightarrow> nat" where
  "rank (Idle out) n = 0"
| "rank (Scheduled m d out) n = 5 * n + 5"
| "rank (Started m d w k) n =
     (if k = 0 then 5 * n + 3
      else if k = 1 then 5 * n + 1
      else if k = 2 then 5 * n + 3
      else if k = 3 then 5 * n + 2
      else 0)"
| "rank (Finished d w out) n = 5 * n + 2"
| "rank (Adopting d out) n = 5 * n + 1"

section \<open>Examples\<close>

text \<open>
  Concrete objects: a fresh channel; a controller constructed on it with low water mark 2
  and high water mark 10; that controller after a write of three bytes that left 12 bytes
  buffered; and the unbounded controller constructed with the same parameters.
\<close>

definition example_channel :: RTCDataChannel where
  "example_channel =
     \<lparr>label = ''data'', bufferedAmount = 0, bufferedAmountLowThreshold = 0,
      onbufferedamountlow = None, sent = []\<rparr>"

definition example_ready :: FlowControlledDataChannel where
  "example_ready = new_FlowControlledDataChannel example_channel (Some 2) (Some 10)"

definition example_paused :: FlowControlledDataChannel where
  "example_paused =
     \<lparr>heap = [Fulfilled, Pending []], microtasks = [], debug_log = [Paused ''data'' 12],
      dc = \<lparr>label = ''data'', bufferedAmount = 12, bufferedAmountLowThreshold = 2,
            onbufferedamountlow = Some Unpause, sent = [[1, 2, 3]]\<rparr>,
      highWaterMark = 10, ready_future = 1\<rparr>"

definition example_unbounded :: UnboundedFlowControlledDataChannel where
  "example_unbounded = new_UnboundedFlowControlledDataChannel example_channel (Some 2) (Some 10)"

text \<open>
  Two runs of the unbounded controller of the example. In the first, three messages are
  written, the first \<^verbatim>\<open>send\<close> leaves 12 bytes buffered, the channel later reports a
  low buffered amount, and the other two messages follow. In the second, the first
  \<^verbatim>\<open>send\<close> throws; more microtasks run and one more message is written afterwards.
\<close>

definition example_events :: "event list" where
  "example_events =
     [CallWrite [1, 2, 3], CallWrite [4], CallWrite [5, 6],
      Microtask (Accepts 12), Microtask (Accepts 12), Microtask (Accepts 12),
      Microtask (Accepts 12), Microtask (Accepts 12), Microtask (Accepts 12),
      BufferedAmountLow 1,
      Microtask (Accepts 3), Microtask (Accepts 3), Microtask (Accepts 3),
      Microtask (Accepts 3), Microtask (Accepts 3), Microtask (Accepts 3),
      Microtask (Accepts 3), Microtask (Accepts 3), Microtask (Accepts 3)]"

definition failing_events :: "event list" where
  "failing_events =
     [CallWrite [1, 2, 3], CallWrite [4], Microtask (Accepts 3), Microtask (Refuses ''closed'')]"

definition later_events :: "event list" where
  "later_events =
     [Microtask (Accepts 3), Microtask (Accepts 3), Microtask (Accepts 3), Microtask (Accepts 3),
      CallWrite [5, 6],
      Microtask (Accepts 3), Microtask (Accepts 3), Microtask (Accepts 3)]"

section \<open>The heap of promises\<close>

lemma lookup_append [simp]: "lookup (h @ [c]) p = (if p = length h then Some c else lookup h p)"
  by (auto simp: lookup_def nth_append)

lemma lookup_update [simp]:
  "lookup (h[a := c]) p = (if p = a \<and> a < length h then Some c else lookup h p)"
  by (auto simp: lookup_def)

lemma lookup_Some_less: "lookup h p = Some c \<Longrightarrow> p < length h"
  by (auto simp: lookup_def split: if_splits)

lemma lookup_length [simp]: "lookup h (length h) = None"
  by (simp add: lookup_def)

lemma is_done_less: "is_done h p \<Longrightarrow> p < length h"
  by (auto simp: is_done_def lookup_def split: if_splits)

section \<open>FlowControlledDataChannel\<close>

lemma example_ready_eq:
  "example_ready =
     \<lparr>heap = [Fulfilled], microtasks = [], debug_log = [],
      dc = \<lparr>label = ''data'', bufferedAmount = 0, bufferedAmountLowThreshold = 2,
            onbufferedamountlow = Some Unpause, sent = []\<rparr>,
      highWaterMark = 10, ready_future = 0\<rparr>"
  by (simp add: example_ready_def example_channel_def new_FlowControlledDataChannel_def
      new_Future_def resolve_def settle_def lookup_def)

text \<open>
  Claim C3. A call to \<^verbatim>\<open>write\<close> of the bounded controller while it is paused (the
  current future is not done) throws \<open>NotReady\<close> whatever the channel would have done,
  and leaves the whole state as it was: in particular nothing was handed to
  \<^verbatim>\<open>send\<close>.
\<close>

theorem write_bounded_paused:
  "\<not> is_done (heap this) (ready_future this) \<Longrightarrow>
   write_bounded outcome message this = Inl (NotReady, this)"
  by (simp add: write_bounded_def)

theorem write_bounded_paused_witness:
  "\<not> is_done (heap example_paused) (ready_future example_paused) \<and>
   write_bounded (Accepts 3) [7, 8, 9] example_paused = Inl (NotReady, example_paused) \<and>
   sent (dc example_paused) = [[1, 2, 3]]"
proof -
  have p: "\<not> is_done (heap example_paused) (ready_future example_paused)"
    by (simp add: example_paused_def is_done_def lookup_def)
  show ?thesis
    using p write_bounded_paused[OF p, of "Accepts 3" "[7, 8, 9]"]
    by (simp add: example_paused_def)
qed

text \<open>
  Claim C2. A call to \<^verbatim>\<open>write\<close> in the ready state whose \<^verbatim>\<open>send\<close> returns,
  with \<open>b\<close> the buffered amount read after it: the call returns and the message was
  handed to \<^verbatim>\<open>send\<close>. If \<open>b\<close> is at least the high water mark, the current
  future is a new cell (its identity is none of the heap before the call, so it differs
  from the previous future), it is pending, and a further write throws \<open>NotReady\<close>.
  If \<open>b\<close> is below the high water mark, the current future and the heap are unchanged
  and the controller is still ready.
\<close>

theorem write_bounded_ready:
  assumes "is_done (heap this) (ready_future this)"
  shows "\<exists>this'. write_bounded (Accepts b) message this = Inr this' \<and>
     sent (dc this') = sent (dc this) @ [message] \<and>
     bufferedAmount (dc this') = b \<and>
     (if b \<ge> highWaterMark this
      then ready_future this' = length (heap this) \<and>
           ready_future this' \<noteq> ready_future this \<and>
           heap this' = heap this @ [Pending []] \<and>
           is_pending (heap this') (ready_future this') \<and>
           \<not> is_done (heap this') (ready_future this') \<and>
           (\<forall>outcome message'. write_bounded outcome message' this' = Inl (NotReady, this'))
      else ready_future this' = ready_future this \<and>
           heap this' = heap this \<and>
           is_done (heap this') (ready_future this'))"
  using assms is_done_less[OF assms]
  by (auto simp: write_bounded_def send_def new_Future_def Let_def is_done_def is_pending_def)

theorem write_bounded_ready_witness:
  "is_done (heap example_ready) (ready_future example_ready) \<and>
   write_bounded (Accepts 12) [1, 2, 3] example_ready = Inr example_paused \<and>
   highWaterMark example_ready \<le> 12 \<and>
   ready_future example_paused \<noteq> ready_future example_ready \<and>
   \<not> is_done (heap example_paused) (ready_future example_paused) \<and>
   (\<exists>this'. write_bounded (Accepts 9) [1, 2, 3] example_ready = Inr this' \<and>
      ready_future this' = ready_future example_ready \<and>
      is_done (heap this') (ready_future this'))"
proof -
  have r: "is_done (heap example_ready) (ready_future example_ready)"
    by (simp add: example_ready_eq is_done_def lookup_def)
  have e: "write_bounded (Accepts 12) [1, 2, 3] example_ready = Inr example_paused"
    by (simp add: example_ready_eq example_paused_def write_bounded_def is_done_def lookup_def
        send_def new_Future_def)
  show ?thesis
    using r e write_bounded_ready[OF r, of 12 "[1, 2, 3]"] write_bounded_ready[OF r, of 9 "[1, 2, 3]"]
    by (auto simp: example_ready_eq)
qed






lemma write_bounded_below:
  assumes "is_done (heap this) (ready_future this)" "b < highWaterMark this"
  shows "write_bounded (Accepts b) message this =
           Inr (this\<lparr>dc := (dc this)\<lparr>sent := sent (dc this) @ [message], bufferedAmount := b\<rparr>\<rparr>)"
  using assms by (simp add: write_bounded_def send_def)

text \<open>
  Claim C6. Starting in the ready state, a sequence of writes in which every
  \<^verbatim>\<open>send\<close> returns with a buffered amount strictly below the high water mark: after
  every number \<open>n\<close> of its writes no call has thrown, the current future is the same
  cell as at the start, the heap is unchanged (so the cell is still fulfilled), and the
  messages were handed to \<^verbatim>\<open>send\<close> in order.
\<close>

theorem writes_below_high_water_mark:
  assumes "is_done (heap this) (ready_future this)"
    and "\<forall>(outcome, message) \<in> set ws. \<exists>b. outcome = Accepts b \<and> b < highWaterMark this"
  shows "\<exists>this'. writes_bounded (take n ws) this = Inr this' \<and>
           ready_future this' = ready_future this \<and> heap this' = heap this \<and>
           is_done (heap this') (ready_future this') \<and>
           sent (dc this') = sent (dc this) @ map snd (take n ws)"
  using assms
proof (induction ws arbitrary: this n)
  case Nil
  then show ?case by simp
next
  case (Cons a ws)
  show ?case
  proof (cases n)
    case 0
    then show ?thesis using Cons.prems by simp
  next
    case (Suc k)
    obtain outcome message where a: "a = (outcome, message)" by (cases a)
    from Cons.prems(2) a obtain b where b: "outcome = Accepts b" "b < highWaterMark this" by auto
    define this1 where
      "this1 = this\<lparr>dc := (dc this)\<lparr>sent := sent (dc this) @ [message], bufferedAmount := b\<rparr>\<rparr>"
    have w: "write_bounded outcome message this = Inr this1"
      unfolding b(1) this1_def using Cons.prems(1) b(2) by (rule write_bounded_below)
    have d1: "is_done (heap this1) (ready_future this1)"
      using Cons.prems(1) by (simp add: this1_def)
    have "\<forall>(outcome, message) \<in> set ws. \<exists>b. outcome = Accepts b \<and> b < highWaterMark this1"
      using Cons.prems(2) by (simp add: this1_def)
    from Cons.IH[OF d1 this, of k] obtain this' where
      "writes_bounded (take k ws) this1 = Inr this'" "ready_future this' = ready_future this1"
      "heap this' = heap this1" "is_done (heap this') (ready_future this')"
      "sent (dc this') = sent (dc this1) @ map snd (take k ws)"
      by blast
    then show ?thesis using a w Suc by (simp add: this1_def)
  qed
qed

theorem writes_below_high_water_mark_witness:
  "is_done (heap example_ready) (ready_future example_ready) \<and>
   (\<exists>this'. writes_bounded [(Accepts 3, [1, 2, 3]), (Accepts 9, [4, 5, 6, 7, 8, 9])] example_ready
        = Inr this' \<and>
      ready_future this' = ready_future example_ready \<and>
      is_done (heap this') (ready_future this') \<and>
      sent (dc this') = [[1, 2, 3], [4, 5, 6, 7, 8, 9]])"
proof -
  have r: "is_done (heap example_ready) (ready_future example_ready)"
    by (simp add: example_ready_eq is_done_def lookup_def)
  have h: "\<forall>(outcome, message) \<in> set [(Accepts 3, [1, 2, 3]), (Accepts 9, [4, 5, 6, 7, 8, 9::8 word])].
             \<exists>b. outcome = Accepts b \<and> b < highWaterMark example_ready"
    by (simp add: example_ready_eq)
  show ?thesis
    using r writes_below_high_water_mark[OF r h, of 2]
    by (auto simp: example_ready_eq)
qed

lemma constructor_state:
  "new_FlowControlledDataChannel d low high =
     \<lparr>heap = [Fulfilled], microtasks = [], debug_log = [],
      dc = d\<lparr>bufferedAmountLowThreshold := (case low of None \<Rightarrow> 262144 | Some l \<Rightarrow> l),
              onbufferedamountlow := Some Unpause\<rparr>,
      highWaterMark = (case high of None \<Rightarrow> 1048576 | Some h \<Rightarrow> h),
      ready_future = 0\<rparr>"
  by (simp add: new_FlowControlledDataChannel_def new_Future_def resolve_def settle_def lookup_def)

lemma write_bounded_done_not_NotReady:
  "is_done (heap this) (ready_future this) \<Longrightarrow>
   write_bounded outcome message this \<noteq> Inl (NotReady, this')"
  by (cases outcome) (auto simp: write_bounded_def send_def new_Future_def Let_def)

text \<open>
  Claim C8. The constructor takes the defaults 262144 and 1048576 for the water marks
  that are omitted, sets the channel's \<^verbatim>\<open>bufferedAmountLowThreshold\<close> to the low
  water mark, installs the handler, leaves the rest of the channel alone and ends in the
  ready state: the current future is fulfilled, so no first write throws \<open>NotReady\<close>.
\<close>

theorem constructor_defaults:
  "highWaterMark (new_FlowControlledDataChannel d low high) =
     (case high of None \<Rightarrow> 1048576 | Some h \<Rightarrow> h) \<and>
   bufferedAmountLowThreshold (dc (new_FlowControlledDataChannel d low high)) =
     (case low of None \<Rightarrow> 262144 | Some l \<Rightarrow> l) \<and>
   onbufferedamountlow (dc (new_FlowControlledDataChannel d low high)) = Some Unpause \<and>
   label (dc (new_FlowControlledDataChannel d low high)) = label d \<and>
   bufferedAmount (dc (new_FlowControlledDataChannel d low high)) = bufferedAmount d \<and>
   sent (dc (new_FlowControlledDataChannel d low high)) = sent d \<and>
   lookup (heap (new_FlowControlledDataChannel d low high))
     (ready (new_FlowControlledDataChannel d low high)) = Some Fulfilled \<and>
   is_done (heap (new_FlowControlledDataChannel d low high))
     (ready_future (new_FlowControlledDataChannel d low high)) \<and>
   microtasks (new_FlowControlledDataChannel d low high) = [] \<and>
   (\<forall>outcome message this'.
      write_bounded outcome message (new_FlowControlledDataChannel d low high)
        \<noteq> Inl (NotReady, this'))"
proof -
  have d: "is_done (heap (new_FlowControlledDataChannel d low high))
     (ready_future (new_FlowControlledDataChannel d low high))"
    by (simp add: constructor_state is_done_def lookup_def)
  have "\<forall>outcome message this'.
      write_bounded outcome message (new_FlowControlledDataChannel d low high)
        \<noteq> Inl (NotReady, this')"
    using write_bounded_done_not_NotReady[OF d] by blast
  moreover have "lookup (heap (new_FlowControlledDataChannel d low high))
     (ready (new_FlowControlledDataChannel d low high)) = Some Fulfilled"
    by (simp add: constructor_state ready_def lookup_def)
  ultimately show ?thesis using d by (simp add: constructor_state)
qed

section \<open>UnboundedFlowControlledDataChannel\<close>

lemma attach_pending:
  "lookup (heap s) p = Some (Pending rs) \<Longrightarrow>
   attach p r s = s\<lparr>heap := (heap s)[p := Pending (rs @ [r])]\<rparr>"
  by (simp add: attach_def)

lemma write_unbounded_pending:
  assumes "lookup (heap s) (queue s) = Some (Pending rs)"
  shows "write_unbounded m s =
     s\<lparr>heap := (heap s @ [Pending []])[queue s := Pending (rs @ [ThenWrite m (length (heap s))])],
       queue := length (heap s)\<rparr>"
  using assms lookup_Some_less[OF assms]
  by (simp add: write_unbounded_def new_Future_def attach_def)

lemma write_unbounded_fulfilled:
  assumes "lookup (heap s) (queue s) = Some Fulfilled"
  shows "write_unbounded m s =
     s\<lparr>heap := heap s @ [Pending []],
       microtasks := microtasks s @ [React (ThenWrite m (length (heap s))) Ok],
       queue := length (heap s)\<rparr>"
  using assms lookup_Some_less[OF assms]
  by (simp add: write_unbounded_def new_Future_def attach_def)

lemma write_unbounded_rejected:
  assumes "lookup (heap s) (queue s) = Some (Rejected e)"
  shows "write_unbounded m s =
     s\<lparr>heap := heap s @ [Pending []],
       microtasks := microtasks s @ [React (ThenWrite m (length (heap s))) (Err e)],
       queue := length (heap s)\<rparr>"
  using assms lookup_Some_less[OF assms]
  by (simp add: write_unbounded_def new_Future_def attach_def)

lemma example_unbounded_eq:
  "example_unbounded =
     \<lparr>heap = [Fulfilled], microtasks = [], debug_log = [],
      dc = \<lparr>label = ''data'', bufferedAmount = 0, bufferedAmountLowThreshold = 2,
            onbufferedamountlow = Some Unpause, sent = []\<rparr>,
      highWaterMark = 10, ready_future = 0, queue = 0\<rparr>"
  by (simp add: example_unbounded_def new_UnboundedFlowControlledDataChannel_def
      example_channel_def constructor_state ready_def FlowControlledDataChannel.extend_def)

section \<open>The invariant is kept by every event\<close>

subsection \<open>Chains\<close>

lemma chain_cells_pending:
  "chain h d links q \<Longrightarrow> c \<in> cells d links \<Longrightarrow> \<exists>rs. lookup h c = Some (Pending rs)"
  by (induction h d links q rule: chain.induct) (auto simp: cells_def)

lemma chain_cells_less: "chain h d links q \<Longrightarrow> c \<in> cells d links \<Longrightarrow> c < length h"
  using chain_cells_pending lookup_Some_less by blast

lemma chain_cells_above_all: "chain h d links q \<Longrightarrow> \<forall>c \<in> set (map snd links). d < c"
  by (induction h d links q rule: chain.induct) force+

lemma chain_cells_above: "chain h d links q \<Longrightarrow> c \<in> set (map snd links) \<Longrightarrow> d < c"
  using chain_cells_above_all by blast

lemma chain_tail_in: "chain h d links q \<Longrightarrow> q \<in> cells d links"
  by (induction h d links q rule: chain.induct) (auto simp: cells_def)

lemma chain_tail_pending: "chain h d links q \<Longrightarrow> lookup h q = Some (Pending [])"
  by (induction h d links q rule: chain.induct) auto

lemma chain_append: "chain h d links q \<Longrightarrow> chain (h @ [c]) d links q"
  by (induction h d links q rule: chain.induct) (auto dest: lookup_Some_less)

lemma chain_update: "chain h d links q \<Longrightarrow> a \<notin> cells d links \<Longrightarrow> chain (h[a := c]) d links q"
  by (induction h d links q rule: chain.induct) (auto simp: cells_def)

lemma chain_head_not_tail:
  "chain h d ((m, d') # links) q \<Longrightarrow> d \<noteq> q"
proof
  assume c: "chain h d ((m, d') # links) q" and "d = q"
  then have "lookup h q = Some (Pending [ThenWrite m d'])" by simp
  moreover have "lookup h q = Some (Pending [])" using c by (rule chain_tail_pending)
  ultimately show False by simp
qed

lemma chain_extend:
  "chain h d links q \<Longrightarrow>
   chain ((h @ [Pending []])[q := Pending [ThenWrite m (length h)]]) d (links @ [(m, length h)]) (length h)"
proof (induction h d links q rule: chain.induct)
  case (1 h d q)
  then show ?case by (auto dest: lookup_Some_less)
next
  case (2 h d m' d' links q)
  have "d \<noteq> q" using "2.prems" by (rule chain_head_not_tail)
  with 2 show ?case by (auto dest: lookup_Some_less)
qed


subsection \<open>A call of write\<close>

lemma settle_pending:
  "lookup (heap s) p = Some (Pending rs) \<Longrightarrow>
   settle out p s = s\<lparr>heap := (heap s)[p := cell_of out],
                        microtasks := microtasks s @ map (\<lambda>r. React r out) rs\<rparr>"
  by (simp add: settle_def cell_of_def)

lemma attach_settled:
  "lookup (heap s) p = Some (cell_of out) \<Longrightarrow>
   attach p r s = s\<lparr>microtasks := microtasks s @ [React r out]\<rparr>"
  by (cases out) (simp_all add: attach_def cell_of_def)

lemma write_unbounded_settled:
  assumes "lookup (heap s) (queue s) = Some (cell_of out)"
  shows "write_unbounded m s =
     s\<lparr>heap := heap s @ [Pending []],
       microtasks := microtasks s @ [React (ThenWrite m (length (heap s))) out],
       queue := length (heap s)\<rparr>"
  using assms lookup_Some_less[OF assms]
  by (cases out) (simp_all add: write_unbounded_def new_Future_def attach_def cell_of_def)

lemma cells_snoc: "cells d (links @ [(m, c)]) = insert c (cells d links)"
  by (auto simp: cells_def)

lemma progress_snoc:
  "progress base ws snt out todo \<Longrightarrow> progress base (ws @ [m]) snt out (todo @ [m])"
proof (cases out)
  case Ok
  assume "progress base ws snt out todo"
  with Ok show ?thesis by (simp add: progress_def)
next
  case (Err e)
  assume "progress base ws snt out todo"
  with Err have "prefix base snt" "prefix snt (base @ ws)" by (simp_all add: progress_def)
  then have "prefix snt ((base @ ws) @ [m])" using prefix_prefix by blast
  with \<open>prefix base snt\<close> Err show ?thesis by (simp add: progress_def)
qed

lemma progress_first:
  "progress base ws snt out [] \<Longrightarrow> progress base (ws @ [m]) snt out [m]"
  using progress_snoc[of base ws snt out "[]" m] by simp

lemma progress_sent:
  assumes "progress base ws snt Ok (m # todo)"
  shows "progress base ws (snt @ [m]) out todo"
proof -
  from assms have b: "prefix base snt" and e: "base @ ws = snt @ m # todo"
    by (simp_all add: progress_def)
  from b have b': "prefix base (snt @ [m])" using prefix_prefix by blast
  have "prefix (snt @ [m]) (base @ ws)" unfolding e by simp
  with b' e show ?thesis by (cases out) (simp_all add: progress_def)
qed

lemma no_other_failure_append:
  "no_other_failure out h \<Longrightarrow> no_other_failure out (h @ [Pending rs])"
  by (cases out) (auto simp: no_other_failure_def)

lemma no_other_failure_update:
  "no_other_failure out h \<Longrightarrow> no_other_failure out (h[a := Pending rs])"
  by (cases out) (auto simp: no_other_failure_def)

lemma live_only_extend:
  assumes "live_only h L" "lookup h q = Some (Pending rs0)"
  shows "live_only ((h @ [Pending []])[q := Pending rs]) (insert (length h) L)"
  using assms by (auto simp: live_only_def)

lemma preserve_write_chain:
  assumes c: "chain (heap s) d links (queue s)"
    and r: "ready_future s \<notin> cells d links"
    and lv: "live_only (heap s) L"
    and nf: "no_other_failure out (heap s)"
  shows "chain (heap (write_unbounded m s)) d (links @ [(m, length (heap s))])
           (queue (write_unbounded m s)) \<and>
         live_only (heap (write_unbounded m s)) (insert (length (heap s)) L) \<and>
         no_other_failure out (heap (write_unbounded m s)) \<and>
         microtasks (write_unbounded m s) = microtasks s \<and>
         dc (write_unbounded m s) = dc s \<and>
         ready_future (write_unbounded m s) = ready_future s \<and>
         (\<forall>w c. w \<notin> cells d links \<longrightarrow> lookup (heap s) w = Some c \<longrightarrow>
            lookup (heap (write_unbounded m s)) w = Some c \<and>
            w \<notin> cells d (links @ [(m, length (heap s))]))"
proof -
  have q: "lookup (heap s) (queue s) = Some (Pending [])" using c by (rule chain_tail_pending)
  have qin: "queue s \<in> cells d links" using c by (rule chain_tail_in)
  show ?thesis
    unfolding write_unbounded_pending[OF q]
    using chain_extend[OF c, of m] r qin live_only_extend[OF lv q]
      no_other_failure_update[OF no_other_failure_append[OF nf]] 
    by (auto simp: cells_snoc dest: lookup_Some_less)
qed

lemma rdy_Some: "rdy h r \<Longrightarrow> \<exists>c. lookup h r = Some c \<and> (c = Fulfilled \<or> c = Pending [])"
  by (auto simp: rdy_def)

lemma started_Some:
  "started k m d w js cw cr \<Longrightarrow> (\<exists>c. cw = Some c) \<and> (\<exists>c. cr = Some c)"
  by (cases "(k, m, d, w, js, cw, cr)" rule: started.cases) auto

lemma inv_write:
  assumes "rel ph links base ws s"
  shows "\<exists>ph' links'. rel ph' links' base (ws @ [m]) (write_unbounded m s)"
proof (cases ph)
  case (Idle out)
  with assms have a: "lookup (heap s) (queue s) = Some (cell_of out)"
    and pr: "progress base ws (sent (dc s)) out []" by simp_all
  have "rel (Scheduled m (length (heap s)) out) [] base (ws @ [m]) (write_unbounded m s)"
    using assms Idle progress_first[OF pr, of m] unfolding write_unbounded_settled[OF a]
    by (cases out) (auto simp: rdy_def cells_def live_only_def no_other_failure_def
        dest: lookup_Some_less)
  then show ?thesis by blast
next
  case (Scheduled m' d out)
  with assms have *: "chain (heap s) d links (queue s)" "ready_future s \<notin> cells d links"
    "live_only (heap s) (insert (ready_future s) (cells d links))" "no_other_failure out (heap s)"
    and pr: "progress base ws (sent (dc s)) out (m' # map fst links)"
    by auto
  have "rel (Scheduled m' d out) (links @ [(m, length (heap s))]) base (ws @ [m]) (write_unbounded m s)"
    using assms Scheduled preserve_write_chain[OF *, of m] *(2) progress_snoc[OF pr, of m]
    by (auto simp: rdy_def insert_commute cells_snoc)
  then show ?thesis by blast
next
  case (Started m' d w k)
  with assms have *: "chain (heap s) d links (queue s)" "ready_future s \<notin> cells d links"
    "live_only (heap s) (insert w (insert (ready_future s) (cells d links)))" "no_other_failure Ok (heap s)"
    and pr: "progress base ws (sent (dc s)) Ok (m' # map fst links)"
    by auto
  have "rel (Started m' d w k) (links @ [(m, length (heap s))]) base (ws @ [m]) (write_unbounded m s)"
    using assms Started preserve_write_chain[OF *, of m] *(2) progress_snoc[OF pr, of m]
       started_Some[of k m' d w "microtasks s" "lookup (heap s) w" "lookup (heap s) (ready_future s)"]
    by (auto simp: insert_commute cells_snoc)
  then show ?thesis by blast
next
  case (Finished d w out)
  with assms have *: "chain (heap s) d links (queue s)" "ready_future s \<notin> cells d links"
    "live_only (heap s) (insert (ready_future s) (cells d links))" "no_other_failure out (heap s)"
    and pr: "progress base ws (sent (dc s)) out (map fst links)"
    by auto
  from Finished assms have "w \<notin> cells d links"
    by (cases out; auto dest: chain_cells_pending simp: cell_of_def)
  then have "rel (Finished d w out) (links @ [(m, length (heap s))]) base (ws @ [m]) (write_unbounded m s)"
    using assms Finished preserve_write_chain[OF *, of m] *(2) progress_snoc[OF pr, of m]
    by (auto simp: rdy_def insert_commute cells_snoc)
  then show ?thesis by blast
next
  case (Adopting d out)
  with assms have *: "chain (heap s) d links (queue s)" "ready_future s \<notin> cells d links"
    "live_only (heap s) (insert (ready_future s) (cells d links))" "no_other_failure out (heap s)"
    and pr: "progress base ws (sent (dc s)) out (map fst links)"
    by auto
  have "rel (Adopting d out) (links @ [(m, length (heap s))]) base (ws @ [m]) (write_unbounded m s)"
    using assms Adopting preserve_write_chain[OF *, of m] *(2) progress_snoc[OF pr, of m]
    by (auto simp: rdy_def insert_commute cells_snoc)
  then show ?thesis by blast
qed

subsection \<open>A microtask\<close>

lemma no_other_failure_fulfilled:
  "no_other_failure out h \<Longrightarrow> no_other_failure out (h[a := Fulfilled])"
  by (cases out) (auto simp: no_other_failure_def)

lemma no_other_failure_settle:
  "no_other_failure out h \<Longrightarrow> no_other_failure out (h[a := cell_of out])"
  by (cases out) (auto simp: no_other_failure_def cell_of_def)

lemma no_other_failure_first:
  "no_other_failure Ok h \<Longrightarrow>
   no_other_failure (Err (TransportError x)) (h[a := Rejected (TransportError x)])"
  by (auto simp: no_other_failure_def)

lemma live_only_update_in:
  "live_only h L \<Longrightarrow> a \<in> L \<Longrightarrow> live_only (h[a := c]) L"
  by (auto simp: live_only_def)

lemma live_only_settle:
  "live_only h L \<Longrightarrow> live_only (h[a := cell_of out]) (L - {a})"
  by (cases out) (auto simp: live_only_def cell_of_def dest: lookup_Some_less)

lemma live_only_mono: "live_only h L \<Longrightarrow> L \<subseteq> L' \<Longrightarrow> live_only h L'"
  by (auto simp: live_only_def)

lemma live_only_append:
  "live_only h L \<Longrightarrow> live_only (h @ [c]) (insert (length h) L)"
  by (auto simp: live_only_def)

lemma progress_Err:
  "progress base ws snt (Err e) todo \<Longrightarrow> progress base ws snt (Err e) todo'"
  by (simp add: progress_def)

lemma cells_Cons: "cells d ((m, d') # links) = insert d (cells d' links)"
  by (auto simp: cells_def)

lemma cells_Nil: "cells d [] = {d}"
  by (auto simp: cells_def)

lemma chain_head_not_in_rest: "chain h d ((m, d') # links) q \<Longrightarrow> d \<notin> cells d' links"
  using chain_cells_above[of h d' links q d] by (auto simp: cells_def)

text \<open>Settling the head of the chain moves the frontier to the next link.\<close>

lemma settle_head:
  assumes c: "chain (heap s) d links (queue s)"
    and r: "ready_future s \<notin> cells d links"
    and rd: "rdy (heap s) (ready_future s)"
    and nf: "no_other_failure out (heap s)"
    and pr: "progress base ws (sent (dc s)) out (map fst links)"
    and lv: "live_only (heap s) (insert (ready_future s) (cells d links))"
    and mt: "microtasks s = []"
  shows "\<exists>ph' links'. rel ph' links' base ws (settle out d s) \<and>
           rank ph' (length links') \<le> 5 * length links"
proof (cases links)
  case Nil
  with c have d: "d = queue s" "lookup (heap s) d = Some (Pending [])" by auto
  have "live_only ((heap s)[d := cell_of out]) (insert (ready_future s) {d} - {d})"
    using lv Nil by (intro live_only_settle) (simp add: cells_Nil)
  then have "live_only ((heap s)[d := cell_of out]) {ready_future s}"
    using r Nil by (auto simp: cells_Nil elim: live_only_mono)
  then have "rel (Idle out) [] base ws (settle out d s)"
    unfolding settle_pending[OF d(2)]
    using d r rd nf pr mt Nil no_other_failure_settle[OF nf]
    by (auto simp: rdy_def cells_Nil dest: lookup_Some_less)
  then have "rel (Idle out) [] base ws (settle out d s) \<and>
      rank (Idle out) (length ([] :: (message \<times> pid) list)) \<le> 5 * length links" by simp
  then show ?thesis by blast
next
  case (Cons a rest)
  obtain m' d' where a: "a = (m', d')" by (cases a)
  from c Cons a have d: "lookup (heap s) d = Some (Pending [ThenWrite m' d'])"
    and c': "chain (heap s) d' rest (queue s)" by auto
  have dn: "d \<notin> cells d' rest" using c Cons a chain_head_not_in_rest by blast
  have "live_only ((heap s)[d := cell_of out]) (insert (ready_future s) (cells d links) - {d})"
    using lv by (rule live_only_settle)
  then have lv': "live_only ((heap s)[d := cell_of out]) (insert (ready_future s) (cells d' rest))"
    using Cons a by (auto simp: cells_Cons elim: live_only_mono)
  have "rel (Scheduled m' d' out) rest base ws (settle out d s)"
    unfolding settle_pending[OF d]
    using r rd nf pr mt Cons a dn lv' chain_update[OF c' dn] no_other_failure_settle[OF nf]
    by (auto simp: rdy_def cells_Cons)
  then have "rel (Scheduled m' d' out) rest base ws (settle out d s) \<and>
      rank (Scheduled m' d' out) (length rest) \<le> 5 * length links" using Cons by simp
  then show ?thesis by blast
qed


lemma write_bounded_refused:
  "lookup (heap s) (ready_future s) = Some Fulfilled \<Longrightarrow>
   write_bounded (Refuses x) m s =
     Inl (TransportError x, s\<lparr>dc := (dc s)\<lparr>sent := sent (dc s) @ [m]\<rparr>\<rparr>)"
  by (simp add: write_bounded_def is_done_def send_def)

lemma write_bounded_accepted:
  "lookup (heap s) (ready_future s) = Some Fulfilled \<Longrightarrow>
   write_bounded (Accepts b) m s =
     Inr (if highWaterMark s \<le> b
          then s\<lparr>dc := (dc s)\<lparr>sent := sent (dc s) @ [m], bufferedAmount := b\<rparr>,
                 heap := heap s @ [Pending []],
                 ready_future := length (heap s),
                 debug_log := debug_log s @ [Paused (label (dc s)) b]\<rparr>
          else s\<lparr>dc := (dc s)\<lparr>sent := sent (dc s) @ [m], bufferedAmount := b\<rparr>\<rparr>)"
  by (simp add: write_bounded_def is_done_def send_def new_Future_def)

text \<open>The state after the continuation of \<open>writeWhenReady\<close> has run.\<close>

lemma run_await_job:
  assumes r: "lookup (heap s) (ready_future s) = Some Fulfilled"
    and w: "lookup (heap s) w = Some (Pending rs)"
  shows "\<exists>out s'. run_job outcome (React (AwaitReady m w) Ok) s = s' \<and>
      (out = Ok \<or> (\<exists>x. out = Err (TransportError x))) \<and>
      sent (dc s') = sent (dc s) @ [m] \<and>
      queue s' = queue s \<and>
      microtasks s' = microtasks s @ map (\<lambda>r. React r out) rs \<and>
      ((ready_future s' = ready_future s \<and> heap s' = (heap s)[w := cell_of out]) \<or>
       (out = Ok \<and> ready_future s' = length (heap s) \<and>
        heap s' = (heap s @ [Pending []])[w := Fulfilled]))"
proof (cases outcome)
  case (Accepts b)
  show ?thesis
    using w lookup_Some_less[OF w]
    by (intro exI[of _ Ok])
       (simp add: Accepts write_bounded_accepted[OF r] settle_def cell_of_def)
next
  case (Refuses x)
  show ?thesis
    using w lookup_Some_less[OF w]
    by (intro exI[of _ "Err (TransportError x)"])
       (simp add: Refuses write_bounded_refused[OF r] settle_def cell_of_def)
qed


lemma after_await:
  assumes c: "chain (heap s) d links (queue s)"
    and r: "ready_future s \<notin> cells d links"
    and wn: "w \<notin> cells d links" and wr: "w \<noteq> ready_future s"
    and nf: "no_other_failure Ok (heap s)"
    and pr: "progress base ws (sent (dc s)) Ok (m # map fst links)"
    and lv: "live_only (heap s) (insert w (insert (ready_future s) (cells d links)))"
    and rf: "lookup (heap s) (ready_future s) = Some Fulfilled"
    and w: "lookup (heap s) w = Some (Pending rs)"
    and out: "out = Ok \<or> (\<exists>x. out = Err (TransportError x))"
    and snt: "sent (dc s') = sent (dc s) @ [m]"
    and q: "queue s' = queue s"
    and h: "(ready_future s' = ready_future s \<and> heap s' = (heap s)[w := cell_of out]) \<or>
       (out = Ok \<and> ready_future s' = length (heap s) \<and>
        heap s' = (heap s @ [Pending []])[w := Fulfilled])"
  shows "chain (heap s') d links (queue s') \<and>
         ready_future s' \<notin> cells d links \<and>
         rdy (heap s') (ready_future s') \<and>
         no_other_failure out (heap s') \<and>
         progress base ws (sent (dc s')) out (map fst links) \<and>
         live_only (heap s') (insert (ready_future s') (cells d links)) \<and>
         lookup (heap s') w = Some (cell_of out)"
proof -
  have wl: "w < length (heap s)" using w by (rule lookup_Some_less)
  have rl: "ready_future s < length (heap s)" using rf by (rule lookup_Some_less)
  have p: "progress base ws (sent (dc s')) out (map fst links)"
    unfolding snt using pr by (rule progress_sent)
  from h show ?thesis
  proof
    assume a: "ready_future s' = ready_future s \<and> heap s' = (heap s)[w := cell_of out]"
    have "live_only ((heap s)[w := cell_of out])
            (insert w (insert (ready_future s) (cells d links)) - {w})"
      using lv by (rule live_only_settle)
    then have "live_only (heap s') (insert w (insert (ready_future s) (cells d links)) - {w})"
      using a by simp
    then have l: "live_only (heap s') (insert (ready_future s') (cells d links))"
      by (rule live_only_mono) (use a in auto)
    have n: "no_other_failure out (heap s')"
    proof (cases out)
      case Ok
      then show ?thesis using a no_other_failure_fulfilled[OF nf] by (simp add: cell_of_def)
    next
      case (Err e)
      with out obtain x where "out = Err (TransportError x)" by auto
      then show ?thesis using a no_other_failure_first[OF nf] by (simp add: cell_of_def)
    qed
    have ch: "chain (heap s') d links (queue s')"
      using a q chain_update[OF c wn] by simp
    have rd: "rdy (heap s') (ready_future s')"
      using a rf wr by (simp add: rdy_def)
    have lw: "lookup (heap s') w = Some (cell_of out)"
      using a wl by simp
    show ?thesis using ch r a rd n p l lw by simp
  next
    assume a: "out = Ok \<and> ready_future s' = length (heap s) \<and>
        heap s' = (heap s @ [Pending []])[w := Fulfilled]"
    have l: "live_only (heap s') (insert (ready_future s') (cells d links))"
      unfolding live_only_def
    proof (intro allI impI)
      fix p rs'
      assume pp: "lookup (heap s') p = Some (Pending rs')"
      show "p \<in> insert (ready_future s') (cells d links)"
      proof (cases "p = length (heap s)")
        case True
        then show ?thesis using a by simp
      next
        case False
        with pp a wl have pw: "p \<noteq> w" and "lookup (heap s) p = Some (Pending rs')"
          by (auto split: if_splits)
        with lv have "p \<in> insert w (insert (ready_future s) (cells d links))"
          unfolding live_only_def by blast
        moreover have "p \<noteq> ready_future s"
          using rf \<open>lookup (heap s) p = Some (Pending rs')\<close> by auto
        ultimately show ?thesis using pw by simp
      qed
    qed
    have n: "no_other_failure out (heap s')"
      using a no_other_failure_fulfilled[OF no_other_failure_append[OF nf]] by simp
    have fresh: "length (heap s) \<notin> cells d links"
      using chain_cells_less[OF c] by blast
    have ch: "chain (heap s') d links (queue s')"
      using a q chain_update[OF chain_append[OF c] wn] by simp
    have rd: "rdy (heap s') (ready_future s')"
      using a wl by (simp add: rdy_def)
    have lw: "lookup (heap s') w = Some (cell_of out)"
      using a wl by (simp add: cell_of_def)
    show ?thesis using ch fresh a rd n p l lw by simp
  qed
qed

subsection \<open>A bufferedamountlow event\<close>

lemma rel_cong:
  assumes "microtasks s' = microtasks s" "heap s' = heap s" "queue s' = queue s"
    "ready_future s' = ready_future s" "sent (dc s') = sent (dc s)"
  shows "rel ph links base ws s' = rel ph links base ws s"
  using assms by (cases ph) simp_all

lemma fire_not_pending:
  assumes "lookup (heap s) (ready_future s) = Some Fulfilled \<or> onbufferedamountlow (dc s) = None"
  shows "fire_bufferedamountlow b s = s\<lparr>dc := (dc s)\<lparr>bufferedAmount := b\<rparr>\<rparr>"
  using assms
  by (auto simp: fire_bufferedamountlow_def on_buffered_amount_low_def is_done_def Let_def
      split: option.split handler.split)

lemma fire_pending:
  assumes "lookup (heap s) (ready_future s) = Some (Pending rs)"
    and "onbufferedamountlow (dc s) = Some Unpause"
  shows "fire_bufferedamountlow b s =
     s\<lparr>dc := (dc s)\<lparr>bufferedAmount := b\<rparr>,
       debug_log := debug_log s @ [Resumed (label (dc s)) b],
       heap := (heap s)[ready_future s := Fulfilled],
       microtasks := microtasks s @ map (\<lambda>r. React r Ok) rs\<rparr>"
  using assms
  by (simp add: fire_bufferedamountlow_def on_buffered_amount_low_def is_done_def
      resolve_def settle_def)

text \<open>The frame of fulfilling the ready future.\<close>

lemma resume_frame:
  assumes c: "chain h d links q" and r: "r \<notin> cells d links"
    and nf: "no_other_failure out h" and lv: "live_only h L"
  shows "chain (h[r := Fulfilled]) d links q \<and>
         no_other_failure out (h[r := Fulfilled]) \<and>
         live_only (h[r := Fulfilled]) L"
proof -
  have "live_only (h[r := cell_of Ok]) (L - {r})" using lv by (rule live_only_settle)
  then have "live_only (h[r := Fulfilled]) L"
    by (simp add: cell_of_def) (erule live_only_mono, blast)
  then show ?thesis
    using chain_update[OF c r] no_other_failure_fulfilled[OF nf] by simp
qed

lemma resume_frame_idle:
  assumes nf: "no_other_failure out h" and lv: "live_only h L"
  shows "no_other_failure out (h[r := Fulfilled]) \<and> live_only (h[r := Fulfilled]) L"
proof -
  have "live_only (h[r := cell_of Ok]) (L - {r})" using lv by (rule live_only_settle)
  then have "live_only (h[r := Fulfilled]) L"
    by (simp add: cell_of_def) (erule live_only_mono, blast)
  then show ?thesis
    using no_other_failure_fulfilled[OF nf] by simp
qed

lemma cell_of_not_pending [simp]: "cell_of out \<noteq> Pending rs" "Pending rs \<noteq> cell_of out"
  by (cases out; simp add: cell_of_def)+

lemma inv_low_resume:
  assumes rel: "rel ph links base ws s"
    and p: "lookup (heap s) (ready_future s) = Some (Pending rs)"
  shows "\<exists>ph'. rel ph' links base ws
     (s\<lparr>heap := (heap s)[ready_future s := Fulfilled],
        microtasks := microtasks s @ map (\<lambda>r. React r Ok) rs\<rparr>)"
    (is "\<exists>ph'. rel ph' links base ws ?s'")
proof (cases ph)
  case (Idle out)
  with rel p have rs: "rs = []" by (auto simp: rdy_def)
  from rel Idle have "no_other_failure out (heap s)" "live_only (heap s) {ready_future s}" by auto
  from resume_frame_idle[OF this, of "ready_future s"] rel Idle p rs
  have "rel (Idle out) links base ws ?s'"
    by (auto simp: rdy_def dest: lookup_Some_less)
  then show ?thesis ..
next
  case (Scheduled m d out)
  with rel p have rs: "rs = []" by (auto simp: rdy_def)
  from rel Scheduled have "chain (heap s) d links (queue s)" "ready_future s \<notin> cells d links"
    "no_other_failure out (heap s)" "live_only (heap s) (insert (ready_future s) (cells d links))"
    by auto
  from resume_frame[OF this] rel Scheduled p rs
  have "rel (Scheduled m d out) links base ws ?s'"
    by (auto simp: rdy_def dest: lookup_Some_less)
  then show ?thesis ..
next
  case (Started m d w k)
  from rel Started have *: "chain (heap s) d links (queue s)" "ready_future s \<notin> cells d links"
    "no_other_failure Ok (heap s)"
    "live_only (heap s) (insert w (insert (ready_future s) (cells d links)))"
    by auto
  from rel Started p have k: "k = 1 \<or> k = 4"
    by (cases "(k, m, d, w, microtasks s, lookup (heap s) w, lookup (heap s) (ready_future s))"
        rule: started.cases) auto
  then show ?thesis
  proof
    assume "k = 1"
    with resume_frame[OF *] rel Started p
    have "rel (Started m d w 2) links base ws ?s'"
      by (auto simp: numeral_2_eq_2 dest: lookup_Some_less)
    then show ?thesis ..
  next
    assume "k = 4"
    with resume_frame[OF *] rel Started p
    have "rel (Started m d w 3) links base ws ?s'"
      by (auto simp: numeral_3_eq_3 eval_nat_numeral dest: lookup_Some_less)
    then show ?thesis ..
  qed
next
  case (Finished d w out)
  with rel p have rs: "rs = []" by (auto simp: rdy_def)
  from rel Finished have "chain (heap s) d links (queue s)" "ready_future s \<notin> cells d links"
    "no_other_failure out (heap s)" "live_only (heap s) (insert (ready_future s) (cells d links))"
    by auto
  from resume_frame[OF this] rel Finished p rs
  have "rel (Finished d w out) links base ws ?s'"
    by (auto simp: rdy_def dest: lookup_Some_less)
  then show ?thesis ..
next
  case (Adopting d out)
  with rel p have rs: "rs = []" by (auto simp: rdy_def)
  from rel Adopting have "chain (heap s) d links (queue s)" "ready_future s \<notin> cells d links"
    "no_other_failure out (heap s)" "live_only (heap s) (insert (ready_future s) (cells d links))"
    by auto
  from resume_frame[OF this] rel Adopting p rs
  have "rel (Adopting d out) links base ws ?s'"
    by (auto simp: rdy_def dest: lookup_Some_less)
  then show ?thesis ..
qed

lemma rel_ready_Some:
  "rel ph links base ws s \<Longrightarrow>
   lookup (heap s) (ready_future s) = Some Fulfilled \<or>
   (\<exists>rs. lookup (heap s) (ready_future s) = Some (Pending rs))"
proof (cases ph)
  case (Started m d w k)
  assume "rel ph links base ws s"
  with Started show ?thesis
    by (cases "(k, m, d, w, microtasks s, lookup (heap s) w, lookup (heap s) (ready_future s))"
        rule: started.cases) auto
qed (auto simp: rdy_def)

lemma inv_low:
  assumes rel: "rel ph links base ws s"
  shows "\<exists>ph' links'. rel ph' links' base ws (fire_bufferedamountlow b s)"
proof -
  consider (noop) "lookup (heap s) (ready_future s) = Some Fulfilled \<or> onbufferedamountlow (dc s) = None"
    | (resume) rs where "lookup (heap s) (ready_future s) = Some (Pending rs)"
        "onbufferedamountlow (dc s) = Some Unpause"
    using rel_ready_Some[OF rel] by (cases "onbufferedamountlow (dc s)") (auto, metis handler.exhaust)
  then show ?thesis
  proof cases
    case noop
    have "rel ph links base ws (fire_bufferedamountlow b s) = rel ph links base ws s"
      unfolding fire_not_pending[OF noop] by (rule rel_cong) simp_all
    with rel show ?thesis by blast
  next
    case resume
    from inv_low_resume[OF rel resume(1)] obtain ph' where
      r': "rel ph' links base ws
        (s\<lparr>heap := (heap s)[ready_future s := Fulfilled],
           microtasks := microtasks s @ map (\<lambda>r. React r Ok) rs\<rparr>)" ..
    have "rel ph' links base ws (fire_bufferedamountlow b s) = rel ph' links base ws
        (s\<lparr>heap := (heap s)[ready_future s := Fulfilled],
           microtasks := microtasks s @ map (\<lambda>r. React r Ok) rs\<rparr>)"
      unfolding fire_pending[OF resume] by (rule rel_cong) simp_all
    with r' show ?thesis by blast
  qed
qed

subsection \<open>The microtasks of each phase\<close>

lemma live_only_start:
  assumes "live_only h (insert r L)"
  shows "live_only (h @ [Pending []]) (insert (length h) (insert r L))"
    and "live_only ((h @ [Pending []])[r := Pending rs]) (insert (length h) (insert r L))"
  using assms by (auto simp: live_only_def split: if_splits)

lemma tick_scheduled_ok:
  assumes rel: "rel (Scheduled m d Ok) links base ws s"
  shows "\<exists>k\<le>1. rel (Started m d (length (heap s)) k) links base ws (step (Microtask outcome) s)"
proof -
  from rel have mt: "microtasks s = [React (ThenWrite m d) Ok]"
    and c: "chain (heap s) d links (queue s)"
    and r: "ready_future s \<notin> cells d links"
    and rd: "rdy (heap s) (ready_future s)"
    and nf: "no_other_failure Ok (heap s)"
    and pr: "progress base ws (sent (dc s)) Ok (m # map fst links)"
    and lv: "live_only (heap s) (insert (ready_future s) (cells d links))"
    by simp_all
  have fresh: "length (heap s) \<notin> cells d links" using chain_cells_less[OF c] by blast
  from rd have rl: "ready_future s < length (heap s)"
    by (auto simp: rdy_def dest: lookup_Some_less)
  from rd show ?thesis unfolding rdy_def
  proof
    assume f: "lookup (heap s) (ready_future s) = Some Fulfilled"
    have st: "step (Microtask outcome) s =
        s\<lparr>heap := heap s @ [Pending []],
          microtasks := [React (AwaitReady m (length (heap s))) Ok,
                         ResolveThenable d (length (heap s))]\<rparr>"
      using f rl by (simp add: mt writeWhenReady_def new_Future_def ready_def attach_def)
    have "rel (Started m d (length (heap s)) 0) links base ws (step (Microtask outcome) s)"
      unfolding st
      using chain_append[OF c] r fresh f rl no_other_failure_append[OF nf] pr
        live_only_start(1)[OF lv]
      by simp
    then show ?thesis by (intro exI[of _ 0]) simp
  next
    assume p: "lookup (heap s) (ready_future s) = Some (Pending [])"
    have st: "step (Microtask outcome) s =
        s\<lparr>heap := (heap s @ [Pending []])
                    [ready_future s := Pending [AwaitReady m (length (heap s))]],
          microtasks := [ResolveThenable d (length (heap s))]\<rparr>"
      using p rl by (simp add: mt writeWhenReady_def new_Future_def ready_def attach_def)
    have "rel (Started m d (length (heap s)) 1) links base ws (step (Microtask outcome) s)"
      unfolding st
      using chain_update[OF chain_append[OF c] r] r fresh p rl
        no_other_failure_update[OF no_other_failure_append[OF nf]] pr
        live_only_start(2)[OF lv]
      by simp
    then show ?thesis by (intro exI[of _ 1]) simp
  qed
qed

lemma tick_settle_head:
  assumes mt: "microtasks s = [j]"
    and st: "step (Microtask outcome) s = settle out d (s\<lparr>microtasks := []\<rparr>)"
    and c: "chain (heap s) d links (queue s)"
    and r: "ready_future s \<notin> cells d links"
    and rd: "rdy (heap s) (ready_future s)"
    and nf: "no_other_failure out (heap s)"
    and pr: "progress base ws (sent (dc s)) out (map fst links)"
    and lv: "live_only (heap s) (insert (ready_future s) (cells d links))"
  shows "\<exists>ph' links'. rel ph' links' base ws (step (Microtask outcome) s) \<and>
           rank ph' (length links') \<le> 5 * length links"
  unfolding st
  by (rule settle_head[where links = links]) (use c r rd nf pr lv in simp_all)

lemma tick_started:
  assumes rel: "rel (Started m d w k) links base ws s"
  shows "\<exists>ph'. rel ph' links base ws (step (Microtask outcome) s) \<and>
           (microtasks s \<noteq> [] \<longrightarrow>
              rank ph' (length links) < rank (Started m d w k) (length links))"
proof -
  from rel have sk: "started k m d w (microtasks s) (lookup (heap s) w)
        (lookup (heap s) (ready_future s))"
    and c: "chain (heap s) d links (queue s)"
    and r: "ready_future s \<notin> cells d links"
    and wn: "w \<notin> cells d links" and wr: "w \<noteq> ready_future s"
    and nf: "no_other_failure Ok (heap s)"
    and pr: "progress base ws (sent (dc s)) Ok (m # map fst links)"
    and lv: "live_only (heap s) (insert w (insert (ready_future s) (cells d links)))"
    by simp_all
  from sk consider
      (B1) "k = 0" "microtasks s = [React (AwaitReady m w) Ok, ResolveThenable d w]"
        "lookup (heap s) w = Some (Pending [])" "lookup (heap s) (ready_future s) = Some Fulfilled"
    | (B2) "k = 1" "microtasks s = [ResolveThenable d w]"
        "lookup (heap s) w = Some (Pending [])"
        "lookup (heap s) (ready_future s) = Some (Pending [AwaitReady m w])"
    | (B3) "k = 2" "microtasks s = [ResolveThenable d w, React (AwaitReady m w) Ok]"
        "lookup (heap s) w = Some (Pending [])" "lookup (heap s) (ready_future s) = Some Fulfilled"
    | (C1) "k = 3" "microtasks s = [React (AwaitReady m w) Ok]"
        "lookup (heap s) w = Some (Pending [Adopt d])"
        "lookup (heap s) (ready_future s) = Some Fulfilled"
    | (C2) "k = 4" "microtasks s = []"
    by (cases "(k, m, d, w, microtasks s, lookup (heap s) w, lookup (heap s) (ready_future s))"
        rule: started.cases) (auto simp: eval_nat_numeral)
  then show ?thesis
  proof cases
    case B1
    let ?s0 = "s\<lparr>microtasks := [ResolveThenable d w]\<rparr>"
    have r0: "lookup (heap ?s0) (ready_future ?s0) = Some Fulfilled"
      and w0: "lookup (heap ?s0) w = Some (Pending [])" using B1 by simp_all
    from run_await_job[OF r0 w0, of outcome m] obtain out where
      o: "out = Ok \<or> (\<exists>x. out = Err (TransportError x))"
      and snt: "sent (dc (step (Microtask outcome) s)) = sent (dc s) @ [m]"
      and q: "queue (step (Microtask outcome) s) = queue s"
      and m': "microtasks (step (Microtask outcome) s) = [ResolveThenable d w]"
      and h: "(ready_future (step (Microtask outcome) s) = ready_future s \<and>
               heap (step (Microtask outcome) s) = (heap s)[w := cell_of out]) \<or>
         (out = Ok \<and> ready_future (step (Microtask outcome) s) = length (heap s) \<and>
          heap (step (Microtask outcome) s) = (heap s @ [Pending []])[w := Fulfilled])"
      by (auto simp: B1(2))
    from after_await[OF c r wn wr nf pr lv B1(4) B1(3) o snt q h] m'
    have "rel (Finished d w out) links base ws (step (Microtask outcome) s)" by simp
    then show ?thesis using B1(1) by (intro exI[of _ "Finished d w out"]) simp
  next
    case B2
    have wl: "w < length (heap s)" using B2(3) by (rule lookup_Some_less)
    have st: "step (Microtask outcome) s =
        s\<lparr>microtasks := [], heap := (heap s)[w := Pending [Adopt d]]\<rparr>"
      using B2 by (simp add: attach_def)
    have "rel (Started m d w 4) links base ws (step (Microtask outcome) s)"
      unfolding st
      using chain_update[OF c wn] r wn wr nf pr B2 wl
        no_other_failure_update[OF nf] live_only_update_in[OF lv, of w]
      by (simp add: eval_nat_numeral)
    then show ?thesis using B2(1) by (intro exI[of _ "Started m d w 4"]) simp
  next
    case B3
    have wl: "w < length (heap s)" using B3(3) by (rule lookup_Some_less)
    have st: "step (Microtask outcome) s =
        s\<lparr>microtasks := [React (AwaitReady m w) Ok], heap := (heap s)[w := Pending [Adopt d]]\<rparr>"
      using B3 by (simp add: attach_def)
    have "rel (Started m d w 3) links base ws (step (Microtask outcome) s)"
      unfolding st
      using chain_update[OF c wn] r wn wr nf pr B3 wl
        no_other_failure_update[OF nf] live_only_update_in[OF lv, of w]
      by (simp add: eval_nat_numeral)
    then show ?thesis using B3(1) by (intro exI[of _ "Started m d w 3"]) simp
  next
    case C1
    let ?s0 = "s\<lparr>microtasks := []\<rparr>"
    have r0: "lookup (heap ?s0) (ready_future ?s0) = Some Fulfilled"
      and w0: "lookup (heap ?s0) w = Some (Pending [Adopt d])" using C1 by simp_all
    from run_await_job[OF r0 w0, of outcome m] obtain out where
      o: "out = Ok \<or> (\<exists>x. out = Err (TransportError x))"
      and snt: "sent (dc (step (Microtask outcome) s)) = sent (dc s) @ [m]"
      and q: "queue (step (Microtask outcome) s) = queue s"
      and m': "microtasks (step (Microtask outcome) s) = [React (Adopt d) out]"
      and h: "(ready_future (step (Microtask outcome) s) = ready_future s \<and>
               heap (step (Microtask outcome) s) = (heap s)[w := cell_of out]) \<or>
         (out = Ok \<and> ready_future (step (Microtask outcome) s) = length (heap s) \<and>
          heap (step (Microtask outcome) s) = (heap s @ [Pending []])[w := Fulfilled])"
      by (auto simp: C1(2))
    from after_await[OF c r wn wr nf pr lv C1(4) C1(3) o snt q h] m'
    have "rel (Adopting d out) links base ws (step (Microtask outcome) s)" by simp
    then show ?thesis using C1(1) by (intro exI[of _ "Adopting d out"]) simp
  next
    case C2
    then have "step (Microtask outcome) s = s" by simp
    with rel C2(2) show ?thesis by (intro exI[of _ "Started m d w k"]) simp
  qed
qed

lemma tick_rank:
  assumes rel: "rel ph links base ws s"
  shows "\<exists>ph' links'. rel ph' links' base ws (step (Microtask outcome) s) \<and>
           (microtasks s \<noteq> [] \<longrightarrow> rank ph' (length links') < rank ph (length links))"
proof (cases ph)
  case (Idle out)
  with rel have "step (Microtask outcome) s = s" "microtasks s = []" by simp_all
  with rel show ?thesis by auto
next
  case (Scheduled m d out)
  show ?thesis
  proof (cases out)
    case Ok
    from rel Scheduled Ok tick_scheduled_ok[of m d links base ws s outcome]
    obtain k where k: "k \<le> 1"
      "rel (Started m d (length (heap s)) k) links base ws (step (Microtask outcome) s)"
      by blast
    from k(1) have "rank (Started m d (length (heap s)) k) (length links) < rank ph (length links)"
      by (simp add: Scheduled)
    with k(2) show ?thesis by blast
  next
    case (Err e)
    with rel Scheduled have pr: "progress base ws (sent (dc s)) (Err e) (m # map fst links)"
      by simp
    have "\<exists>ph' links'. rel ph' links' base ws (step (Microtask outcome) s) \<and>
           rank ph' (length links') \<le> 5 * length links"
      using rel unfolding Scheduled Err
      by (intro tick_settle_head[where out = "Err e" and d = d and links = links]
          progress_Err[OF pr]) simp_all
    then obtain ph' links' where "rel ph' links' base ws (step (Microtask outcome) s)"
      "rank ph' (length links') \<le> 5 * length links" by blast
    moreover have "5 * length links < rank ph (length links)" by (simp add: Scheduled)
    ultimately show ?thesis by (intro exI[of _ ph'] exI[of _ links']) simp
  qed
next
  case (Started m d w k)
  with rel tick_started[of m d w k links base ws s outcome] show ?thesis by blast
next
  case (Finished d w out)
  with rel have mt: "microtasks s = [ResolveThenable d w]"
    and w: "lookup (heap s) w = Some (cell_of out)" by simp_all
  have w0: "lookup (heap (s\<lparr>microtasks := []\<rparr>)) w = Some (cell_of out)" using w by simp
  have st: "step (Microtask outcome) s = s\<lparr>microtasks := [React (Adopt d) out]\<rparr>"
    by (simp add: mt attach_settled[OF w0])
  have "rel (Adopting d out) links base ws (step (Microtask outcome) s)"
    unfolding st using rel Finished by simp
  moreover have "rank (Adopting d out) (length links) < rank ph (length links)"
    by (simp add: Finished)
  ultimately show ?thesis by blast
next
  case (Adopting d out)
  have "\<exists>ph' links'. rel ph' links' base ws (step (Microtask outcome) s) \<and>
           rank ph' (length links') \<le> 5 * length links"
    using rel unfolding Adopting
    by (intro tick_settle_head[where out = out and d = d and links = links]) simp_all
  then obtain ph' links' where "rel ph' links' base ws (step (Microtask outcome) s)"
    "rank ph' (length links') \<le> 5 * length links" by blast
  moreover have "5 * length links < rank ph (length links)" by (simp add: Adopting)
  ultimately show ?thesis by (intro exI[of _ ph'] exI[of _ links']) simp
qed

lemma inv_tick:
  assumes rel: "rel ph links base ws s"
  shows "\<exists>ph' links'. rel ph' links' base ws (step (Microtask outcome) s)"
  using tick_rank[OF rel, of outcome] by blast

text \<open>Left to itself, the microtask queue runs empty: no microtask of the controller
  reschedules itself for ever.\<close>

lemma quiescent_stays:
  "microtasks s = [] \<Longrightarrow> run (map Microtask os) s = s"
  by (induction os) simp_all

lemma drain:
  assumes "rel ph links base ws s" and "rank ph (length links) \<le> length os"
  shows "microtasks (run (map Microtask os) s) = []"
  using assms
proof (induction os arbitrary: ph links s)
  case Nil
  show ?case
  proof (cases ph)
    case (Started m d w k)
    with Nil show ?thesis
      by (cases "(k, m, d, w, microtasks s, lookup (heap s) w, lookup (heap s) (ready_future s))"
          rule: started.cases) (auto split: if_splits)
  qed (use Nil in auto)
next
  case (Cons outcome os)
  show ?case
  proof (cases "microtasks s = []")
    case True
    then show ?thesis using quiescent_stays[of s "outcome # os"] by simp
  next
    case False
    from tick_rank[OF Cons.prems(1), of outcome] False obtain ph' links' where
      r: "rel ph' links' base ws (step (Microtask outcome) s)"
      and d: "rank ph' (length links') < rank ph (length links)" by blast
    from d Cons.prems(2) have "rank ph' (length links') \<le> length os" by simp
    from Cons.IH[OF r this] show ?thesis by simp
  qed
qed

lemma rel_queue:
  "rel ph links base ws s \<Longrightarrow> \<exists>c. lookup (heap s) (queue s) = Some c"
  by (cases ph) (auto dest: chain_tail_pending)

subsection \<open>Reachable states\<close>

lemma unbounded_constructor_state:
  "new_UnboundedFlowControlledDataChannel d low high =
     \<lparr>heap = [Fulfilled], microtasks = [], debug_log = [],
      dc = d\<lparr>bufferedAmountLowThreshold := (case low of None \<Rightarrow> 262144 | Some l \<Rightarrow> l),
              onbufferedamountlow := Some Unpause\<rparr>,
      highWaterMark = (case high of None \<Rightarrow> 1048576 | Some h \<Rightarrow> h),
      ready_future = 0, queue = 0\<rparr>"
  by (simp add: new_UnboundedFlowControlledDataChannel_def constructor_state ready_def
      FlowControlledDataChannel.extend_def)

lemma inv_initial:
  "rel (Idle Ok) [] (sent d) [] (new_UnboundedFlowControlledDataChannel d low high)"
  by (auto simp: unbounded_constructor_state lookup_def cell_of_def rdy_def
      no_other_failure_def progress_def live_only_def nth_Cons' split: if_splits)

lemma inv_step:
  assumes "inv base ws s"
  shows "inv base (ws @ writes_of [ev]) (step ev s)"
proof -
  from assms obtain ph links where r: "rel ph links base ws s" unfolding inv_def by blast
  show ?thesis
  proof (cases ev)
    case (CallWrite m)
    with inv_write[OF r, of m] show ?thesis by (simp add: inv_def)
  next
    case (Microtask outcome)
    with inv_tick[OF r, of outcome] show ?thesis by (simp add: inv_def)
  next
    case (BufferedAmountLow b)
    with inv_low[OF r, of b] show ?thesis by (simp add: inv_def)
  qed
qed

lemma writes_of_Cons: "writes_of (ev # evs) = writes_of [ev] @ writes_of evs"
  by (cases ev) simp_all

lemma inv_run: "inv base ws s \<Longrightarrow> inv base (ws @ writes_of evs) (run evs s)"
proof (induction evs arbitrary: ws s)
  case Nil
  then show ?case by simp
next
  case (Cons ev evs)
  from Cons.IH[OF inv_step[OF Cons.prems, of ev]] show ?case
    by (simp add: writes_of_Cons[of ev evs])
qed

lemma inv_reachable:
  "inv (sent d) (writes_of evs) (run evs (new_UnboundedFlowControlledDataChannel d low high))"
proof -
  have "inv (sent d) [] (new_UnboundedFlowControlledDataChannel d low high)"
    unfolding inv_def using inv_initial by blast
  from inv_run[OF this, of evs] show ?thesis by simp
qed


lemma in_set_lookup: "c \<in> set h \<longleftrightarrow> (\<exists>p. lookup h p = Some c)"
  by (auto simp: lookup_def in_set_conv_nth)

lemma no_other_failure_Ok_set: "no_other_failure Ok h \<Longrightarrow> Rejected e \<notin> set h"
  by (auto simp: no_other_failure_def in_set_lookup)

lemma no_other_failure_Err_set:
  "no_other_failure (Err e) h \<Longrightarrow> Rejected e' \<in> set h \<Longrightarrow> e' = e \<and> (\<exists>x. e = TransportError x)"
  by (auto simp: no_other_failure_def in_set_lookup)

lemma rel_no_other_failure:
  "rel ph links base ws s \<Longrightarrow> \<exists>out. no_other_failure out (heap s)"
  by (cases ph) auto

lemma rel_not_NotReady:
  assumes "rel ph links base ws s"
  shows "Rejected NotReady \<notin> set (heap s)"
proof -
  from rel_no_other_failure[OF assms] obtain out where n: "no_other_failure out (heap s)" ..
  show ?thesis
  proof (cases out)
    case Ok
    with n show ?thesis by (simp add: no_other_failure_Ok_set)
  next
    case (Err e)
    with n no_other_failure_Err_set[of e "heap s" NotReady] show ?thesis by auto
  qed
qed

text \<open>A continuation of \<open>writeWhenReady\<close> is a microtask only while the current future is
  fulfilled and nothing has failed.\<close>

lemma rel_await_job:
  assumes "rel ph links base ws s"
    and "React (AwaitReady m w) out \<in> set (microtasks s)"
  shows "out = Ok \<and> lookup (heap s) (ready_future s) = Some Fulfilled \<and>
         no_other_failure Ok (heap s) \<and> (\<exists>rs. lookup (heap s) w = Some (Pending rs))"
proof (cases ph)
  case (Started m' d w' k)
  with assms show ?thesis
    by (cases "(k, m', d, w', microtasks s, lookup (heap s) w', lookup (heap s) (ready_future s))"
        rule: started.cases) auto
qed (use assms in auto)

lemma rel_quiescent:
  assumes "rel ph links base ws s" and "microtasks s = []"
  shows "(\<exists>out. ph = Idle out) \<or>
         (\<exists>m d w. ph = Started m d w 4 \<and>
            lookup (heap s) (ready_future s) = Some (Pending [AwaitReady m w]))"
proof (cases ph)
  case (Started m d w k)
  with assms show ?thesis
    by (cases "(k, m, d, w, microtasks s, lookup (heap s) w, lookup (heap s) (ready_future s))"
        rule: started.cases) (auto simp: eval_nat_numeral)
qed (use assms in auto)



lemma rel_failed_idle:
  assumes r: "rel ph links base ws s" and q: "microtasks s = []"
    and f: "Rejected e \<in> set (heap s)"
  shows "lookup (heap s) (queue s) = Some (Rejected e)"
proof -
  from rel_quiescent[OF r q] show ?thesis
  proof
    assume "\<exists>out. ph = Idle out"
    then obtain out where i: "ph = Idle out" ..
    with r have l: "lookup (heap s) (queue s) = Some (cell_of out)"
      and n: "no_other_failure out (heap s)" by simp_all
    show ?thesis
    proof (cases out)
      case Ok
      with n f show ?thesis by (simp add: no_other_failure_Ok_set)
    next
      case (Err e')
      with n f no_other_failure_Err_set[of e' "heap s" e] have "e = e'" by simp
      with l Err show ?thesis by (simp add: cell_of_def)
    qed
  next
    assume "\<exists>m d w. ph = Started m d w 4 \<and>
            lookup (heap s) (ready_future s) = Some (Pending [AwaitReady m w])"
    then obtain m d w where "ph = Started m d w 4" by blast
    with r have "no_other_failure Ok (heap s)" by simp
    with f show ?thesis by (simp add: no_other_failure_Ok_set)
  qed
qed

lemma rel_failure_kind:
  assumes r: "rel ph links base ws s" and f: "Rejected e \<in> set (heap s)"
  shows "\<exists>x. e = TransportError x"
proof -
  from rel_no_other_failure[OF r] obtain out where n: "no_other_failure out (heap s)" ..
  show ?thesis
  proof (cases out)
    case Ok
    with n f show ?thesis by (simp add: no_other_failure_Ok_set)
  next
    case (Err e')
    with n f no_other_failure_Err_set[of e' "heap s" e] show ?thesis by auto
  qed
qed

subsection \<open>Rejected promises\<close>

lemma dc_settle [simp]: "dc (settle out p s) = dc s"
  by (simp add: settle_def split: option.split promise.split)

lemma dc_attach [simp]: "dc (attach p r s) = dc s"
  by (simp add: attach_def split: option.split promise.split)

lemma dc_write_unbounded [simp]: "dc (write_unbounded m s) = dc s"
  by (simp add: write_unbounded_def new_Future_def)

lemma sent_fire [simp]: "sent (dc (fire_bufferedamountlow b s)) = sent (dc s)"
  by (simp add: fire_bufferedamountlow_def on_buffered_amount_low_def resolve_def Let_def
      split: option.split handler.split)

lemma sent_run_job:
  "\<forall>m w. j \<noteq> React (AwaitReady m w) Ok \<Longrightarrow> sent (dc (run_job outcome j s)) = sent (dc s)"
  by (cases "(outcome, j, s)" rule: run_job.cases)
     (simp_all add: writeWhenReady_def new_Future_def)

lemma sent_step:
  assumes "\<forall>m w js. microtasks s \<noteq> React (AwaitReady m w) Ok # js"
  shows "sent (dc (step ev s)) = sent (dc s)"
proof (cases ev)
  case (Microtask outcome)
  show ?thesis
  proof (cases "microtasks s")
    case Nil
    with Microtask show ?thesis by simp
  next
    case (Cons j js)
    with assms have "\<forall>m w. j \<noteq> React (AwaitReady m w) Ok" by auto
    from sent_run_job[OF this] Microtask Cons show ?thesis by simp
  qed
qed simp_all

text \<open>A settled promise stays as it is: only pending cells are overwritten, and new cells
  are appended.\<close>

lemma rejected_update:
  assumes "Rejected e \<in> set h" and "lookup h p = Some (Pending rs)"
  shows "Rejected e \<in> set (h[p := c])"
proof -
  from assms(1) obtain i where i: "i < length h" "h ! i = Rejected e"
    by (auto simp: in_set_conv_nth)
  with assms(2) have "i \<noteq> p" by (auto simp: lookup_def split: if_splits)
  with i have "i < length (h[p := c])" "h[p := c] ! i = Rejected e" by simp_all
  then show ?thesis by (metis nth_mem)
qed

lemma rejected_settle:
  "Rejected e \<in> set (heap s) \<Longrightarrow> Rejected e \<in> set (heap (settle out p s))"
  by (auto simp: settle_def rejected_update split: option.split promise.split)

lemma rejected_attach:
  "Rejected e \<in> set (heap s) \<Longrightarrow> Rejected e \<in> set (heap (attach p r s))"
  by (auto simp: attach_def rejected_update split: option.split promise.split)

lemma rejected_write_bounded:
  assumes "Rejected e \<in> set (heap s)"
  shows "case write_bounded outcome m s of
           Inl (e', s') \<Rightarrow> Rejected e \<in> set (heap s')
         | Inr s' \<Rightarrow> Rejected e \<in> set (heap s')"
  using assms
  by (cases outcome) (auto simp: write_bounded_def send_def new_Future_def Let_def)

lemma rejected_run_job:
  assumes "Rejected e \<in> set (heap s)"
  shows "Rejected e \<in> set (heap (run_job outcome j s))"
proof (cases "(outcome, j, s)" rule: run_job.cases)
  case (1 outcome' message d this)
  have "Rejected e \<in> set (heap (s\<lparr>heap := heap s @ [Pending []]\<rparr>))" using assms by simp
  from rejected_attach[OF this] 1 show ?thesis
    by (simp add: writeWhenReady_def new_Future_def)
next
  case (3 outcome' message w this)
  from rejected_write_bounded[OF assms, of outcome message] 3 show ?thesis
    by (auto split: sum.splits intro: rejected_settle)
qed (use assms in \<open>simp_all add: rejected_settle rejected_attach\<close>)

lemma rejected_step:
  assumes "Rejected e \<in> set (heap s)"
  shows "Rejected e \<in> set (heap (step ev s))"
proof (cases ev)
  case (CallWrite m)
  have "Rejected e \<in> set (heap (s\<lparr>heap := heap s @ [Pending []]\<rparr>))" using assms by simp
  from rejected_attach[OF this] CallWrite show ?thesis
    by (simp add: write_unbounded_def new_Future_def)
next
  case (Microtask outcome)
  show ?thesis
  proof (cases "microtasks s")
    case Nil
    with Microtask assms show ?thesis by simp
  next
    case (Cons j js)
    have "Rejected e \<in> set (heap (s\<lparr>microtasks := js\<rparr>))" using assms by simp
    from rejected_run_job[OF this] Microtask Cons show ?thesis by simp
  qed
next
  case (BufferedAmountLow b)
  have "Rejected e \<in> set (heap (s\<lparr>dc := (dc s)\<lparr>bufferedAmount := b\<rparr>,
      debug_log := debug_log s @ [Resumed (label (dc s)) b]\<rparr>))" using assms by simp
  from rejected_settle[OF this] BufferedAmountLow assms show ?thesis
    by (simp add: fire_bufferedamountlow_def on_buffered_amount_low_def resolve_def Let_def
        split: option.split handler.split)
qed

lemma failed_no_await:
  assumes "inv base ws s" and "Rejected e \<in> set (heap s)"
  shows "\<forall>m w js. microtasks s \<noteq> React (AwaitReady m w) Ok # js"
proof (intro allI notI)
  fix m w js
  assume a: "microtasks s = React (AwaitReady m w) Ok # js"
  from assms(1) obtain ph links where r: "rel ph links base ws s" unfolding inv_def by blast
  from a have "React (AwaitReady m w) Ok \<in> set (microtasks s)" by simp
  from rel_await_job[OF r this] have "no_other_failure Ok (heap s)" by simp
  with assms(2) show False by (simp add: no_other_failure_Ok_set)
qed

lemma failed_run:
  assumes "inv base ws s" and "Rejected e \<in> set (heap s)"
  shows "sent (dc (run evs s)) = sent (dc s) \<and> Rejected e \<in> set (heap (run evs s))"
  using assms
proof (induction evs arbitrary: ws s)
  case Nil
  then show ?case by simp
next
  case (Cons ev evs)
  have 1: "inv base (ws @ writes_of [ev]) (step ev s)" using Cons.prems(1) by (rule inv_step)
  have 2: "Rejected e \<in> set (heap (step ev s))" using Cons.prems(2) by (rule rejected_step)
  have 3: "sent (dc (step ev s)) = sent (dc s)"
    using failed_no_await[OF Cons.prems] by (rule sent_step)
  from Cons.IH[OF 1 2] 3 show ?case by simp
qed

subsection \<open>Units between await and write\<close>





section \<open>The promise chain of the unbounded controller\<close>

lemma inv_drain:
  assumes "inv base ws s"
  shows "\<exists>n. \<forall>os. n \<le> length os \<longrightarrow> microtasks (run (map Microtask os) s) = []"
proof -
  from assms obtain ph links where r: "rel ph links base ws s" unfolding inv_def by blast
  from drain[OF r] show ?thesis by blast
qed


lemma run_append: "run (evs @ evs') s = run evs' (run evs s)"
  by (induction evs arbitrary: s) simp_all

lemma example_unbounded_new:
  "run evs example_unbounded =
     run evs (new_UnboundedFlowControlledDataChannel example_channel (Some 2) (Some 10))"
  by (simp add: example_unbounded_def)

lemma reachable_tail_in_heap:
  "queue (run evs (new_UnboundedFlowControlledDataChannel d low high))
     < length (heap (run evs (new_UnboundedFlowControlledDataChannel d low high)))"
proof -
  have "inv (sent d) (writes_of evs) (run evs (new_UnboundedFlowControlledDataChannel d low high))"
    by (rule inv_reachable)
  then obtain ph links where
    "rel ph links (sent d) (writes_of evs)
       (run evs (new_UnboundedFlowControlledDataChannel d low high))"
    unfolding inv_def by blast
  from rel_queue[OF this] show ?thesis by (auto dest: lookup_Some_less)
qed

text \<open>
  Claim C9. \<^verbatim>\<open>write\<close> of the unbounded controller is a total function of the state
  with no error result: the method has no \<^verbatim>\<open>throw\<close> and \<^verbatim>\<open>then\<close> does not
  throw. In every state whose chain tail is a promise of the heap, which by
  \<open>reachable_tail_in_heap\<close> is every state that an unbounded controller reaches (paused
  or ready, after a \<^verbatim>\<open>send\<close> that threw or not), the call leaves the channel, the
  current future, the high water mark and the log alone, so nothing is handed to
  \<^verbatim>\<open>send\<close> inside the call; it creates one pending promise, which becomes the tail,
  and adds one unit: the callback becomes a waiter of the previous tail when that is
  pending, and a microtask when it is settled.
\<close>

theorem write_unbounded_returns:
  assumes "queue this < length (heap this)"
  shows "dc (write_unbounded message this) = dc this \<and>
   ready_future (write_unbounded message this) = ready_future this \<and>
   highWaterMark (write_unbounded message this) = highWaterMark this \<and>
   debug_log (write_unbounded message this) = debug_log this \<and>
   queue (write_unbounded message this) = length (heap this) \<and>
   length (heap (write_unbounded message this)) = Suc (length (heap this)) \<and>
   lookup (heap (write_unbounded message this)) (queue (write_unbounded message this))
     = Some (Pending []) \<and>
   (case heap this ! queue this of
      Pending rs \<Rightarrow>
        heap (write_unbounded message this) =
          (heap this)[queue this := Pending (rs @ [ThenWrite message (length (heap this))])]
            @ [Pending []] \<and>
        microtasks (write_unbounded message this) = microtasks this
    | Fulfilled \<Rightarrow>
        heap (write_unbounded message this) = heap this @ [Pending []] \<and>
        microtasks (write_unbounded message this) =
          microtasks this @ [React (ThenWrite message (length (heap this))) Ok]
    | Rejected e \<Rightarrow>
        heap (write_unbounded message this) = heap this @ [Pending []] \<and>
        microtasks (write_unbounded message this) =
          microtasks this @ [React (ThenWrite message (length (heap this))) (Err e)])"
proof (cases "heap this ! queue this")
  case (Pending rs)
  with assms have "lookup (heap this) (queue this) = Some (Pending rs)" by (simp add: lookup_def)
  from write_unbounded_pending[OF this, of message] assms Pending show ?thesis
    by (simp add: list_update_append)
next
  case Fulfilled
  with assms have "lookup (heap this) (queue this) = Some Fulfilled" by (simp add: lookup_def)
  from write_unbounded_fulfilled[OF this, of message] Fulfilled show ?thesis by simp
next
  case (Rejected e)
  with assms have "lookup (heap this) (queue this) = Some (Rejected e)" by (simp add: lookup_def)
  from write_unbounded_rejected[OF this, of message] Rejected show ?thesis by simp
qed

theorem write_unbounded_returns_witness:
  "queue example_unbounded < length (heap example_unbounded) \<and>
   sent (dc (write_unbounded [1, 2, 3] example_unbounded)) = [] \<and>
   queue (write_unbounded [1, 2, 3] example_unbounded) = 1 \<and>
   microtasks (write_unbounded [1, 2, 3] example_unbounded) = [React (ThenWrite [1, 2, 3] 1) Ok] \<and>
   queue (write_unbounded [4] (write_unbounded [1, 2, 3] example_unbounded)) = 2 \<and>
   heap (write_unbounded [4] (write_unbounded [1, 2, 3] example_unbounded)) =
     [Fulfilled, Pending [ThenWrite [4] 2], Pending []] \<and>
   \<not> is_done (heap (run (take 9 example_events) example_unbounded))
        (ready_future (run (take 9 example_events) example_unbounded)) \<and>
   dc (write_unbounded [7] (run (take 9 example_events) example_unbounded))
     = dc (run (take 9 example_events) example_unbounded) \<and>
   queue (write_unbounded [7] (run (take 9 example_events) example_unbounded)) = 7 \<and>
   Rejected (TransportError ''closed'') \<in> set (heap (run failing_events example_unbounded)) \<and>
   dc (write_unbounded [7] (run failing_events example_unbounded))
     = dc (run failing_events example_unbounded) \<and>
   queue (write_unbounded [7] (run failing_events example_unbounded)) = 4"
proof -
  have a: "queue example_unbounded < length (heap example_unbounded)"
    by (simp add: example_unbounded_eq)
  note w1 = write_unbounded_returns[OF a, of "[1, 2, 3]"]
  have b: "queue (write_unbounded [1, 2, 3] example_unbounded)
            < length (heap (write_unbounded [1, 2, 3] example_unbounded))"
    using w1 by simp
  note w2 = write_unbounded_returns[OF b, of "[4]"]
  have h1: "heap (write_unbounded [1, 2, 3] example_unbounded) = [Fulfilled, Pending []]"
    using w1 by (simp add: example_unbounded_eq)
  have p: "\<not> is_done (heap (run (take 9 example_events) example_unbounded))
        (ready_future (run (take 9 example_events) example_unbounded))"
    by code_simp
  have pl: "length (heap (run (take 9 example_events) example_unbounded)) = 7"
    by code_simp
  have pq: "queue (run (take 9 example_events) example_unbounded)
              < length (heap (run (take 9 example_events) example_unbounded))"
    unfolding example_unbounded_new by (rule reachable_tail_in_heap)
  note w3 = write_unbounded_returns[OF pq, of "[7]"]
  have f: "Rejected (TransportError ''closed'') \<in> set (heap (run failing_events example_unbounded))"
    by (simp add: failing_events_def example_unbounded_eq write_unbounded_def new_Future_def
        attach_def lookup_def writeWhenReady_def ready_def write_bounded_def is_done_def send_def
        settle_def)
  have fl: "length (heap (run failing_events example_unbounded)) = 4"
    by code_simp
  have fq: "queue (run failing_events example_unbounded)
              < length (heap (run failing_events example_unbounded))"
    unfolding example_unbounded_new by (rule reachable_tail_in_heap)
  note w4 = write_unbounded_returns[OF fq, of "[7]"]
  show ?thesis
    using a w1 w2 h1 p pl w3 f fl w4 by (simp add: example_unbounded_eq)
qed



text \<open>
  Claim C4. In every state that an unbounded controller reaches from its construction:
  a continuation of \<^verbatim>\<open>writeWhenReady\<close> is in the microtask queue only for a fulfilled
  awaited future and only while the current future is done; when it is the next microtask,
  the \<^verbatim>\<open>super.write\<close> it calls does not throw \<open>NotReady\<close>, whatever the channel does;
  and no promise of the heap is rejected with \<open>NotReady\<close>.
\<close>

theorem unbounded_never_not_ready:
  assumes "this = run evs (new_UnboundedFlowControlledDataChannel d low high)"
  shows "(\<forall>m w out. React (AwaitReady m w) out \<in> set (microtasks this) \<longrightarrow>
            out = Ok \<and> is_done (heap this) (ready_future this)) \<and>
         (\<forall>m w js outcome this'. microtasks this = React (AwaitReady m w) Ok # js \<longrightarrow>
            write_bounded outcome m (this\<lparr>microtasks := js\<rparr>) \<noteq> Inl (NotReady, this')) \<and>
         Rejected NotReady \<notin> set (heap this)"
proof -
  have "inv (sent d) (writes_of evs) this" unfolding assms by (rule inv_reachable)
  then obtain ph links where r: "rel ph links (sent d) (writes_of evs) this"
    unfolding inv_def by blast
  have a: "\<forall>m w out. React (AwaitReady m w) out \<in> set (microtasks this) \<longrightarrow>
            out = Ok \<and> is_done (heap this) (ready_future this)"
    using rel_await_job[OF r] by (auto simp: is_done_def)
  have "\<forall>m w js outcome this'. microtasks this = React (AwaitReady m w) Ok # js \<longrightarrow>
            write_bounded outcome m (this\<lparr>microtasks := js\<rparr>) \<noteq> Inl (NotReady, this')"
  proof (intro allI impI)
    fix m w js outcome this'
    assume "microtasks this = React (AwaitReady m w) Ok # js"
    then have "React (AwaitReady m w) Ok \<in> set (microtasks this)" by simp
    with a have "is_done (heap (this\<lparr>microtasks := js\<rparr>)) (ready_future (this\<lparr>microtasks := js\<rparr>))"
      by auto
    then show "write_bounded outcome m (this\<lparr>microtasks := js\<rparr>) \<noteq> Inl (NotReady, this')"
      by (rule write_bounded_done_not_NotReady)
  qed
  with a rel_not_NotReady[OF r] show ?thesis by blast
qed

theorem unbounded_never_not_ready_witness:
  "microtasks (run (take 10 example_events) example_unbounded) = [React (AwaitReady [4] 6) Ok] \<and>
   is_done (heap (run (take 10 example_events) example_unbounded))
     (ready_future (run (take 10 example_events) example_unbounded)) \<and>
   (\<forall>this'. write_bounded (Accepts 3) [4]
       ((run (take 10 example_events) example_unbounded)\<lparr>microtasks := []\<rparr>)
      \<noteq> Inl (NotReady, this')) \<and>
   Rejected NotReady \<notin> set (heap (run (take 10 example_events) example_unbounded))"
proof -
  have m: "microtasks (run (take 10 example_events) example_unbounded)
             = [React (AwaitReady [4] 6) Ok]"
    by code_simp
  from unbounded_never_not_ready[OF example_unbounded_new, of "take 10 example_events"] m
  show ?thesis by simp
qed

text \<open>
  Claim C10. In a state that an unbounded controller reaches from its construction and in
  which a promise is rejected, whatever happens next (further calls of \<^verbatim>\<open>write\<close>,
  microtasks with any behaviour of the channel, \<^verbatim>\<open>bufferedamountlow\<close> events), no
  message is handed to \<^verbatim>\<open>send\<close> any more, and the promise stays rejected.
\<close>

theorem unbounded_nothing_sent_after_rejection:
  assumes "this = run evs (new_UnboundedFlowControlledDataChannel d low high)"
    and "Rejected e \<in> set (heap this)"
  shows "sent (dc (run evs' this)) = sent (dc this) \<and> Rejected e \<in> set (heap (run evs' this))"
proof -
  have "inv (sent d) (writes_of evs) this" unfolding assms(1) by (rule inv_reachable)
  from failed_run[OF this assms(2)] show ?thesis .
qed

theorem unbounded_nothing_sent_after_rejection_witness:
  "Rejected (TransportError ''closed'') \<in> set (heap (run failing_events example_unbounded)) \<and>
   sent (dc (run failing_events example_unbounded)) = [[1, 2, 3]] \<and>
   writes_of (failing_events @ later_events) = [[1, 2, 3], [4], [5, 6]] \<and>
   sent (dc (run later_events (run failing_events example_unbounded))) = [[1, 2, 3]]"
proof -
  have f: "Rejected (TransportError ''closed'') \<in> set (heap (run failing_events example_unbounded))"
    by (simp add: failing_events_def example_unbounded_eq write_unbounded_def new_Future_def
        attach_def lookup_def writeWhenReady_def ready_def write_bounded_def is_done_def send_def
        settle_def)
  have s: "sent (dc (run failing_events example_unbounded)) = [[1, 2, 3]]"
    by code_simp
  have w: "writes_of (failing_events @ later_events) = [[1, 2, 3], [4], [5, 6]]"
    by (simp add: failing_events_def later_events_def)
  from unbounded_nothing_sent_after_rejection[OF example_unbounded_new f, of later_events] f s w
  show ?thesis by simp
qed

text \<open>
  Claim C7. In every state that an unbounded controller reaches from its construction:
  when the next microtask is the continuation of \<^verbatim>\<open>writeWhenReady\<close> and the
  \<^verbatim>\<open>send\<close> it reaches throws, the promise of that unit is rejected with the
  channel's error. When a promise is rejected with an error, the error is one thrown by
  the channel; whenever the microtask queue is empty the tail of the chain, the promise
  in the field \<^verbatim>\<open>queue\<close>, is rejected with that error, and the queue is empty after
  finitely many microtasks, so the failure can be observed as a rejected continuation;
  and a later call of \<^verbatim>\<open>write\<close> still extends the chain: it makes a new pending
  promise the tail, and on a settled tail it schedules the microtask that will reject the
  new promise with the same error.
\<close>

theorem unbounded_failure_on_chain:
  assumes "this = run evs (new_UnboundedFlowControlledDataChannel d low high)"
  shows "(\<forall>m w js x. microtasks this = React (AwaitReady m w) Ok # js \<longrightarrow>
            lookup (heap (step (Microtask (Refuses x)) this)) w
              = Some (Rejected (TransportError x))) \<and>
         (\<forall>e. Rejected e \<in> set (heap this) \<longrightarrow>
            (\<exists>x. e = TransportError x) \<and>
            (microtasks this = [] \<longrightarrow> lookup (heap this) (queue this) = Some (Rejected e)) \<and>
            (\<exists>n. \<forall>os. n \<le> length os \<longrightarrow>
               lookup (heap (run (map Microtask os) this)) (queue (run (map Microtask os) this))
                 = Some (Rejected e)) \<and>
            (\<forall>m. queue (write_unbounded m this) = length (heap this) \<and>
                 lookup (heap (write_unbounded m this)) (length (heap this)) = Some (Pending []) \<and>
                 (microtasks this = [] \<longrightarrow>
                    microtasks (write_unbounded m this)
                      = [React (ThenWrite m (length (heap this))) (Err e)])))"
proof -
  have i: "inv (sent d) (writes_of evs) this" unfolding assms by (rule inv_reachable)
  then obtain ph links where r: "rel ph links (sent d) (writes_of evs) this"
    unfolding inv_def by blast
  have first: "\<forall>m w js x. microtasks this = React (AwaitReady m w) Ok # js \<longrightarrow>
            lookup (heap (step (Microtask (Refuses x)) this)) w
              = Some (Rejected (TransportError x))"
  proof (intro allI impI)
    fix m w js x
    assume a: "microtasks this = React (AwaitReady m w) Ok # js"
    then have "React (AwaitReady m w) Ok \<in> set (microtasks this)" by simp
    from rel_await_job[OF r this] obtain rs where
      f: "lookup (heap this) (ready_future this) = Some Fulfilled"
      and w: "lookup (heap this) w = Some (Pending rs)" by blast
    have f0: "lookup (heap (this\<lparr>microtasks := js\<rparr>)) (ready_future (this\<lparr>microtasks := js\<rparr>))
                = Some Fulfilled" using f by simp
    show "lookup (heap (step (Microtask (Refuses x)) this)) w
              = Some (Rejected (TransportError x))"
      using w lookup_Some_less[OF w]
      by (simp add: a write_bounded_refused[OF f0] settle_def)
  qed
  have second: "\<forall>e. Rejected e \<in> set (heap this) \<longrightarrow>
            (\<exists>x. e = TransportError x) \<and>
            (microtasks this = [] \<longrightarrow> lookup (heap this) (queue this) = Some (Rejected e)) \<and>
            (\<exists>n. \<forall>os. n \<le> length os \<longrightarrow>
               lookup (heap (run (map Microtask os) this)) (queue (run (map Microtask os) this))
                 = Some (Rejected e)) \<and>
            (\<forall>m. queue (write_unbounded m this) = length (heap this) \<and>
                 lookup (heap (write_unbounded m this)) (length (heap this)) = Some (Pending []) \<and>
                 (microtasks this = [] \<longrightarrow>
                    microtasks (write_unbounded m this)
                      = [React (ThenWrite m (length (heap this))) (Err e)]))"
  proof (intro allI impI)
    fix e
    assume f: "Rejected e \<in> set (heap this)"
    have k: "\<exists>x. e = TransportError x" using r f by (rule rel_failure_kind)
    have t: "microtasks this = [] \<longrightarrow> lookup (heap this) (queue this) = Some (Rejected e)"
      using rel_failed_idle[OF r _ f] by blast
    from inv_drain[OF i] obtain n where
      n: "\<forall>os. n \<le> length os \<longrightarrow> microtasks (run (map Microtask os) this) = []" ..
    have dr: "\<forall>os. n \<le> length os \<longrightarrow>
               lookup (heap (run (map Microtask os) this)) (queue (run (map Microtask os) this))
                 = Some (Rejected e)"
    proof (intro allI impI)
      fix os :: "send_outcome list"
      assume "n \<le> length os"
      with n have q: "microtasks (run (map Microtask os) this) = []" by blast
      from inv_run[OF i, of "map Microtask os"] obtain ph' links' where
        r': "rel ph' links' (sent d) (writes_of evs @ writes_of (map Microtask os))
               (run (map Microtask os) this)"
        unfolding inv_def by blast
      have f': "Rejected e \<in> set (heap (run (map Microtask os) this))"
        using failed_run[OF i f] by blast
      from rel_failed_idle[OF r' q f']
      show "lookup (heap (run (map Microtask os) this)) (queue (run (map Microtask os) this))
                 = Some (Rejected e)" .
    qed
    from rel_queue[OF r] obtain c where c: "lookup (heap this) (queue this) = Some c" ..
    then have ql: "queue this < length (heap this)" by (rule lookup_Some_less)
    have ext: "\<forall>m. queue (write_unbounded m this) = length (heap this) \<and>
                 lookup (heap (write_unbounded m this)) (length (heap this)) = Some (Pending []) \<and>
                 (microtasks this = [] \<longrightarrow>
                    microtasks (write_unbounded m this)
                      = [React (ThenWrite m (length (heap this))) (Err e)])"
    proof (intro allI conjI impI)
      fix m
      show "queue (write_unbounded m this) = length (heap this)"
        by (simp add: write_unbounded_def new_Future_def)
      show "lookup (heap (write_unbounded m this)) (length (heap this)) = Some (Pending [])"
        using c ql
        by (cases c) (simp_all add: write_unbounded_pending write_unbounded_fulfilled
            write_unbounded_rejected)
      assume q: "microtasks this = []"
      with t have "lookup (heap this) (queue this) = Some (Rejected e)" by blast
      from write_unbounded_rejected[OF this, of m] q
      show "microtasks (write_unbounded m this)
              = [React (ThenWrite m (length (heap this))) (Err e)]" by simp
    qed
    from k t dr ext
    show "(\<exists>x. e = TransportError x) \<and>
            (microtasks this = [] \<longrightarrow> lookup (heap this) (queue this) = Some (Rejected e)) \<and>
            (\<exists>n. \<forall>os. n \<le> length os \<longrightarrow>
               lookup (heap (run (map Microtask os) this)) (queue (run (map Microtask os) this))
                 = Some (Rejected e)) \<and>
            (\<forall>m. queue (write_unbounded m this) = length (heap this) \<and>
                 lookup (heap (write_unbounded m this)) (length (heap this)) = Some (Pending []) \<and>
                 (microtasks this = [] \<longrightarrow>
                    microtasks (write_unbounded m this)
                      = [React (ThenWrite m (length (heap this))) (Err e)]))"
      by blast
  qed
  from first second show ?thesis by blast
qed

theorem unbounded_failure_on_chain_witness:
  "microtasks (run (take 3 failing_events) example_unbounded)
     = [React (AwaitReady [1, 2, 3] 3) Ok, ResolveThenable 1 3] \<and>
   lookup (heap (step (Microtask (Refuses ''closed'')) (run (take 3 failing_events) example_unbounded))) 3
     = Some (Rejected (TransportError ''closed'')) \<and>
   Rejected (TransportError ''closed'')
     \<in> set (heap (run (failing_events @ later_events) example_unbounded)) \<and>
   microtasks (run (failing_events @ later_events) example_unbounded) = [] \<and>
   lookup (heap (run (failing_events @ later_events) example_unbounded))
     (queue (run (failing_events @ later_events) example_unbounded))
     = Some (Rejected (TransportError ''closed'')) \<and>
   microtasks (write_unbounded [7] (run (failing_events @ later_events) example_unbounded))
     = [React (ThenWrite [7] (length (heap (run (failing_events @ later_events) example_unbounded))))
          (Err (TransportError ''closed''))]"
proof -
  have m: "microtasks (run (take 3 failing_events) example_unbounded)
     = [React (AwaitReady [1, 2, 3] 3) Ok, ResolveThenable 1 3]"
    by code_simp
  have f: "Rejected (TransportError ''closed'')
     \<in> set (heap (run (failing_events @ later_events) example_unbounded))"
    by (simp add: failing_events_def later_events_def example_unbounded_eq write_unbounded_def
        new_Future_def attach_def lookup_def writeWhenReady_def ready_def write_bounded_def
        is_done_def send_def settle_def)
  have q: "microtasks (run (failing_events @ later_events) example_unbounded) = []"
    by code_simp
  from unbounded_failure_on_chain[OF example_unbounded_new, of "take 3 failing_events"] m
  have 1: "lookup (heap (step (Microtask (Refuses ''closed''))
              (run (take 3 failing_events) example_unbounded))) 3
     = Some (Rejected (TransportError ''closed''))" by blast
  from unbounded_failure_on_chain[OF example_unbounded_new, of "failing_events @ later_events"] f q
  have 2: "lookup (heap (run (failing_events @ later_events) example_unbounded))
     (queue (run (failing_events @ later_events) example_unbounded))
     = Some (Rejected (TransportError ''closed''))"
    and 3: "microtasks (write_unbounded [7] (run (failing_events @ later_events) example_unbounded))
     = [React (ThenWrite [7] (length (heap (run (failing_events @ later_events) example_unbounded))))
          (Err (TransportError ''closed''))]"
    by blast+
  from m 1 f q 2 3 show ?thesis by blast
qed

end
